theory Spec2Isabelle
  imports Main "HOL-Library.Word" "HOL-Library.AList" "HOL-Library.Multiset"
    "HOL-Library.Code_Target_Nat"
begin

section \<open>JavaScript values shared by every component\<close>

text \<open>
  A JavaScript string is a sequence of 16-bit code units, a \<open>Uint8Array\<close> a sequence of
  bytes, a \<open>Date\<close> a number of milliseconds since the epoch.
\<close>

type_synonym jsstring = "16 word list"
type_synonym bytes = "8 word list"
type_synonym date = int

text \<open>
  A \<open>Date\<close> made from a value of a request may be an Invalid Date, whose time value is
  \<open>NaN\<close>: that is \<open>None\<close>.
\<close>

type_synonym js_date = "int option"

definition js :: "string \<Rightarrow> jsstring" where
  "js s = map (\<lambda>c. of_nat (of_char c)) s"

text \<open>Truthiness of a value that is a string, \<open>null\<close> or \<open>undefined\<close>.\<close>

definition truthy :: "jsstring option \<Rightarrow> bool" where
  "truthy v = (case v of None \<Rightarrow> False | Some s \<Rightarrow> s \<noteq> [])"

text \<open>\<open>v || null\<close> for such a value.\<close>

definition orNull :: "jsstring option \<Rightarrow> jsstring option" where
  "orNull v = (if truthy v then v else None)"

text \<open>A route handler answers with a JSON body (status 200) or an error status and message.\<close>

datatype http_error = HttpError nat string

section \<open>The store (\<open>lib/db\<close>)\<close>

text \<open>
  Every table is a JavaScript \<open>Map\<close> from id to row: an association list in insertion
  order, where \<open>set\<close> on a present key replaces the row in place and on an absent key
  appends it (\<open>AList.update\<close>), and \<open>values()\<close> lists the rows in that order.
\<close>

record chatMember =
  cm_id :: jsstring
  cm_chatId :: jsstring
  cm_userId :: jsstring

record user =
  u_id :: jsstring
  u_publicKey :: "jsstring option"

record message =
  m_id :: jsstring
  m_chatId :: jsstring
  m_senderId :: jsstring
  m_ciphertext :: jsstring
  m_iv :: jsstring
  m_contentType :: jsstring
  m_createdAt :: date

record deleteEvent =
  de_id :: jsstring
  de_messageId :: jsstring
  de_chatId :: jsstring
  de_senderId :: jsstring
  de_signature :: jsstring
  de_timestamp :: js_date
  de_createdAt :: date
  de_delivered :: bool

record signalEvent =
  se_id :: jsstring
  se_chatId :: jsstring
  se_fromUserId :: jsstring
  se_toUserId :: "jsstring option"
  se_type :: jsstring
  se_payload :: jsstring
  se_createdAt :: date
  se_consumed :: bool
  se_expiresAt :: date

record storage =
  users :: "(jsstring \<times> user) list"
  chatMembers :: "(jsstring \<times> chatMember) list"
  messages :: "(jsstring \<times> message) list"
  deleteEvents :: "(jsstring \<times> deleteEvent) list"
  signalEvents :: "(jsstring \<times> signalEvent) list"

definition chatMember_findUnique :: "storage \<Rightarrow> jsstring \<Rightarrow> jsstring \<Rightarrow> chatMember option" where
  "chatMember_findUnique st chatId userId =
     find (\<lambda>m. cm_chatId m = chatId \<and> cm_userId m = userId) (map snd (chatMembers st))"

subsection \<open>\<open>db.signalEvent\<close>\<close>

definition signalEvent_where :: "jsstring \<Rightarrow> jsstring \<Rightarrow> bool \<Rightarrow> date \<Rightarrow> signalEvent \<Rightarrow> bool" where
  "signalEvent_where chatId toUserId consumed gt e =
     (\<not> se_chatId e \<noteq> chatId \<and> \<not> se_toUserId e \<noteq> Some toUserId
      \<and> \<not> se_consumed e \<noteq> consumed \<and> \<not> se_expiresAt e \<le> gt)"

text \<open>\<open>findMany\<close> with \<open>orderBy: { createdAt: "asc" }\<close>: filter, then a stable sort.\<close>

definition signalEvent_findMany ::
  "storage \<Rightarrow> jsstring \<Rightarrow> jsstring \<Rightarrow> bool \<Rightarrow> date \<Rightarrow> signalEvent list" where
  "signalEvent_findMany st chatId toUserId consumed gt =
     sort_key se_createdAt
       (filter (signalEvent_where chatId toUserId consumed gt) (map snd (signalEvents st)))"

text \<open>\<open>updateMany\<close> with \<open>data: { consumed: true }\<close>: one \<open>get\<close> and \<open>set\<close> per id.\<close>

definition signalEvent_setConsumed ::
  "jsstring \<Rightarrow> (jsstring \<times> signalEvent) list \<Rightarrow> (jsstring \<times> signalEvent) list" where
  "signalEvent_setConsumed i tbl =
     (case map_of tbl i of
        None \<Rightarrow> tbl
      | Some e \<Rightarrow> AList.update i (e\<lparr>se_consumed := True\<rparr>) tbl)"

definition signalEvent_updateMany :: "storage \<Rightarrow> jsstring list \<Rightarrow> storage" where
  "signalEvent_updateMany st ids =
     st\<lparr>signalEvents := fold signalEvent_setConsumed ids (signalEvents st)\<rparr>"

text \<open>
  \<open>create\<close>: the id comes from \<open>generateId()\<close> and \<open>createdAt\<close> from the clock, both read
  inside the store; they are inputs here.
\<close>

definition signalEvent_create ::
  "storage \<Rightarrow> jsstring \<Rightarrow> date \<Rightarrow> jsstring \<Rightarrow> jsstring \<Rightarrow> jsstring option \<Rightarrow> jsstring \<Rightarrow> jsstring
     \<Rightarrow> date \<Rightarrow> signalEvent \<times> storage" where
  "signalEvent_create st newId createdAt chatId fromUserId toUserId type payload expiresAt =
     (let event = \<lparr>se_id = newId, se_chatId = chatId, se_fromUserId = fromUserId,
                   se_toUserId = toUserId, se_type = type, se_payload = payload,
                   se_createdAt = createdAt, se_consumed = False, se_expiresAt = expiresAt\<rparr>
      in (event, st\<lparr>signalEvents := AList.update newId event (signalEvents st)\<rparr>))"

definition signalEvent_deleteMany :: "storage \<Rightarrow> date \<Rightarrow> storage" where
  "signalEvent_deleteMany st lt =
     st\<lparr>signalEvents := filter (\<lambda>(i, event). \<not> se_expiresAt event < lt) (signalEvents st)\<rparr>"

section \<open>The signaling relay (\<open>/api/signal\<close>)\<close>

definition SIGNAL_TTL_MS :: int where
  "SIGNAL_TTL_MS = 30 * 1000"

text \<open>
  Authentication: the user id of a verified bearer token, else that of the session;
  \<open>bearer\<close> and \<open>session\<close> are what \<open>verifyJWT\<close> and \<open>getSession\<close> gave.
\<close>

definition authenticate :: "jsstring option \<Rightarrow> jsstring option \<Rightarrow> jsstring option" where
  "authenticate bearer session =
     (let userId = orNull bearer in
      if \<not> truthy userId then orNull session else userId)"

record signalView =
  sv_type :: jsstring
  sv_payload :: jsstring
  sv_fromUserId :: jsstring
  sv_toUserId :: "jsstring option"
  sv_chatId :: jsstring

definition signalView_of :: "signalEvent \<Rightarrow> signalView" where
  "signalView_of s = \<lparr>sv_type = se_type s, sv_payload = se_payload s,
     sv_fromUserId = se_fromUserId s, sv_toUserId = se_toUserId s, sv_chatId = se_chatId s\<rparr>"

record signal_get_request =
  sg_bearer :: "jsstring option"
  sg_session :: "jsstring option"
  sg_chatId :: "jsstring option"
  sg_now :: date

text \<open>
  The fetch proper (\<open>fetch_signals\<close> of the relay contract): the query and the
  mark-as-consumed update of the handler.
\<close>

definition fetch_signals :: "storage \<Rightarrow> jsstring \<Rightarrow> jsstring \<Rightarrow> date \<Rightarrow> signalEvent list \<times> storage" where
  "fetch_signals st chatId userId now =
     (let signals = signalEvent_findMany st chatId userId False now;
          st' = (if length signals > 0
                 then signalEvent_updateMany st (map se_id signals) else st)
      in (signals, st'))"

definition signal_GET :: "storage \<Rightarrow> signal_get_request \<Rightarrow> (http_error + signalView list) \<times> storage" where
  "signal_GET st req =
     (case authenticate (sg_bearer req) (sg_session req) of
        None \<Rightarrow> (Inl (HttpError 401 ''Unauthorized''), st)
      | Some userId \<Rightarrow>
          (case orNull (sg_chatId req) of
             None \<Rightarrow> (Inl (HttpError 400 ''Chat ID required''), st)
           | Some chatId \<Rightarrow>
               (case chatMember_findUnique st chatId userId of
                  None \<Rightarrow> (Inl (HttpError 403 ''Access denied''), st)
                | Some membership \<Rightarrow>
                    (let (signals, st') = fetch_signals st chatId userId (sg_now req)
                     in (Inr (map signalView_of signals), st')))))"

record signal_post_request =
  sp_bearer :: "jsstring option"
  sp_session :: "jsstring option"
  sp_type :: "jsstring option"
  sp_payload :: "jsstring option"
  sp_toUserId :: "jsstring option"
  sp_chatId :: "jsstring option"
  sp_now :: date
  sp_newId :: jsstring
  sp_createdAt :: date
  sp_cleanupAt :: date

definition validTypes :: "jsstring list" where
  "validTypes = [js ''offer'', js ''answer'', js ''ice-candidate'']"

definition signal_POST :: "storage \<Rightarrow> signal_post_request \<Rightarrow> (http_error + jsstring) \<times> storage" where
  "signal_POST st req =
     (case authenticate (sp_bearer req) (sp_session req) of
        None \<Rightarrow> (Inl (HttpError 401 ''Unauthorized''), st)
      | Some userId \<Rightarrow>
          (case (orNull (sp_type req), orNull (sp_payload req), orNull (sp_chatId req)) of
             (Some type, Some payload, Some chatId) \<Rightarrow>
               if type \<notin> set validTypes
               then (Inl (HttpError 400 ''Invalid signal type''), st)
               else (case chatMember_findUnique st chatId userId of
                  None \<Rightarrow> (Inl (HttpError 403 ''Access denied''), st)
                | Some fromMembership \<Rightarrow>
                    (case (case orNull (sp_toUserId req) of
                             None \<Rightarrow> None
                           | Some toUserId \<Rightarrow>
                               (case chatMember_findUnique st chatId toUserId of
                                  None \<Rightarrow> Some (HttpError 400 ''Target user not in chat'')
                                | Some toMembership \<Rightarrow> None)) of
                       Some err \<Rightarrow> (Inl err, st)
                     | None \<Rightarrow>
                         (let (signal, st1) =
                                signalEvent_create st (sp_newId req) (sp_createdAt req) chatId userId
                                  (orNull (sp_toUserId req)) type payload (sp_now req + SIGNAL_TTL_MS);
                              st2 = signalEvent_deleteMany st1 (sp_cleanupAt req)
                          in (Inr (se_id signal), st2))))
           | _ \<Rightarrow> (Inl (HttpError 400 ''Type, payload, and chatId are required''), st)))"

subsection \<open>Well-formed tables and runs of the relay\<close>

text \<open>
  A table built by \<open>Map.set\<close> under the row's own id has pairwise distinct keys, and every
  row is stored under its \<open>id\<close>.
\<close>

definition table_ok :: "(jsstring \<times> signalEvent) list \<Rightarrow> bool" where
  "table_ok tbl = (distinct (map fst tbl) \<and> (\<forall>(k, e) \<in> set tbl. se_id e = k))"

text \<open>The table after a fetch: every row the query matched is marked consumed.\<close>

definition mark_fetched ::
  "jsstring \<Rightarrow> jsstring \<Rightarrow> date \<Rightarrow> (jsstring \<times> signalEvent) list \<Rightarrow> (jsstring \<times> signalEvent) list" where
  "mark_fetched c u now tbl =
     map (\<lambda>(k, e). if signalEvent_where c u False now e
                     then (k, e\<lparr>se_consumed := True\<rparr>) else (k, e)) tbl"

text \<open>The row an accepted \<open>POST\<close> stores.\<close>

definition stored_signal ::
  "signal_post_request \<Rightarrow> jsstring \<Rightarrow> jsstring \<Rightarrow> jsstring \<Rightarrow> jsstring \<Rightarrow> signalEvent" where
  "stored_signal req userId type payload chatId =
     \<lparr>se_id = sp_newId req, se_chatId = chatId, se_fromUserId = userId,
      se_toUserId = orNull (sp_toUserId req), se_type = type, se_payload = payload,
      se_createdAt = sp_createdAt req, se_consumed = False,
      se_expiresAt = sp_now req + SIGNAL_TTL_MS\<rparr>"

definition seen_consumed :: "jsstring set \<Rightarrow> (jsstring \<times> signalEvent) list \<Rightarrow> bool" where
  "seen_consumed seen tbl = (\<forall>(k, e) \<in> set tbl. k \<in> seen \<longrightarrow> se_consumed e)"

text \<open>
  A run of the relay: requests handled one after the other, each to completion. A
  \<open>GET\<close> that passes its checks is a \<open>Fetch\<close>; one that does not leaves the store as it
  is. \<open>relay_run\<close> lists what each fetch returned, \<open>relay_state\<close> is the store at the end.
\<close>

datatype relay_call = Fetch jsstring jsstring date | Post signal_post_request

fun relay_run :: "storage \<Rightarrow> relay_call list \<Rightarrow> signalEvent list list" where
  "relay_run st [] = []"
| "relay_run st (Fetch chatId userId now # cs) =
     (let (signals, st') = fetch_signals st chatId userId now in signals # relay_run st' cs)"
| "relay_run st (Post req # cs) = relay_run (snd (signal_POST st req)) cs"

fun relay_state :: "storage \<Rightarrow> relay_call list \<Rightarrow> storage" where
  "relay_state st [] = st"
| "relay_state st (Fetch chatId userId now # cs) =
     relay_state (snd (fetch_signals st chatId userId now)) cs"
| "relay_state st (Post req # cs) = relay_state (snd (signal_POST st req)) cs"

fun post_ids :: "relay_call list \<Rightarrow> jsstring list" where
  "post_ids [] = []"
| "post_ids (Fetch chatId userId now # cs) = post_ids cs"
| "post_ids (Post req # cs) = sp_newId req # post_ids cs"

fun cleanup_times :: "relay_call list \<Rightarrow> date list" where
  "cleanup_times [] = []"
| "cleanup_times (Fetch chatId userId now # cs) = cleanup_times cs"
| "cleanup_times (Post req # cs) = sp_cleanupAt req # cleanup_times cs"

section \<open>Messages and delete events on the server\<close>

subsection \<open>Values of a request body and the dates made from them\<close>

text \<open>
  A JavaScript number: \<open>Finite m e\<close> is \<open>m * 2 ^ e\<close>, the form of every finite double.
\<close>

datatype js_number = Finite int int | PosInfinity | NegInfinity | NaN

text \<open>
  A field of a parsed JSON body: absent (\<open>undefined\<close>), \<open>null\<close>, a boolean, a number, a
  string, or an object or array, given by the string that \<open>ToPrimitive\<close> turns it into.
\<close>

datatype js_value =
  JsUndefined | JsNull | JsBoolean bool | JsNumber js_number | JsString jsstring | JsObject jsstring

definition js_truthy :: "js_value \<Rightarrow> bool" where
  "js_truthy v =
     (case v of
        JsUndefined \<Rightarrow> False
      | JsNull \<Rightarrow> False
      | JsBoolean b \<Rightarrow> b
      | JsNumber n \<Rightarrow> (case n of Finite m e \<Rightarrow> m \<noteq> 0 | NaN \<Rightarrow> False | _ \<Rightarrow> True)
      | JsString s \<Rightarrow> s \<noteq> []
      | JsObject s \<Rightarrow> True)"

text \<open>
  \<open>TimeClip\<close>: no time value for a number that is not finite or lies more than
  \<open>8.64e15\<close> ms from the epoch; otherwise the number truncated towards zero.
\<close>

definition TimeClip :: "js_number \<Rightarrow> js_date" where
  "TimeClip n =
     (case n of
        Finite m e \<Rightarrow>
          if 0 \<le> e
          then (let t = m * 2 ^ nat e in
                if \<bar>t\<bar> > 8640000000000000 then None else Some t)
          else (let d = 2 ^ nat (- e) in
                if \<bar>m\<bar> > 8640000000000000 * d then None else Some (sgn m * (\<bar>m\<bar> div d)))
      | _ \<Rightarrow> None)"

text \<open>
  \<open>new Date(v)\<close>: a string (also the one an object converts to) goes through \<open>Date.parse\<close>,
  whose fallback formats are the engine's own, so it is a parameter; any other value goes
  through \<open>ToNumber\<close>.
\<close>

definition new_Date :: "(jsstring \<Rightarrow> js_number) \<Rightarrow> js_value \<Rightarrow> js_date" where
  "new_Date parse v =
     (case v of
        JsUndefined \<Rightarrow> TimeClip NaN
      | JsNull \<Rightarrow> TimeClip (Finite 0 0)
      | JsBoolean b \<Rightarrow> TimeClip (Finite (if b then 1 else 0) 0)
      | JsNumber n \<Rightarrow> TimeClip n
      | JsString s \<Rightarrow> TimeClip (parse s)
      | JsObject s \<Rightarrow> TimeClip (parse s))"

text \<open>\<open>a <= b\<close> on two dates: no comparison with \<open>NaN\<close> holds.\<close>

definition date_le :: "js_date \<Rightarrow> js_date \<Rightarrow> bool" where
  "date_le a b = (case (a, b) of (Some x, Some y) \<Rightarrow> x \<le> y | _ \<Rightarrow> False)"

text \<open>
  \<open>Array.prototype.sort\<close> with a comparator (\<open>None\<close> is a result of \<open>NaN\<close>, which counts as
  \<open>0\<close>). The sort is stable, so under a consistent comparator its result is the one this
  insertion sort computes. A comparator that answers \<open>NaN\<close> for some pairs only is not
  consistent, and the order is then the engine's own choice.
\<close>

fun insert_sorted :: "('a \<Rightarrow> 'a \<Rightarrow> int option) \<Rightarrow> 'a \<Rightarrow> 'a list \<Rightarrow> 'a list" where
  "insert_sorted cmp x [] = [x]"
| "insert_sorted cmp x (y # ys) =
     (if (case cmp x y of None \<Rightarrow> False | Some v \<Rightarrow> v > 0)
      then y # insert_sorted cmp x ys else x # y # ys)"

definition Array_sort :: "('a \<Rightarrow> 'a \<Rightarrow> int option) \<Rightarrow> 'a list \<Rightarrow> 'a list" where
  "Array_sort cmp xs = foldr (insert_sorted cmp) xs []"

subsection \<open>\<open>db.message\<close> and \<open>db.deleteEvent\<close>\<close>

definition message_findUnique :: "storage \<Rightarrow> jsstring \<Rightarrow> message option" where
  "message_findUnique st i = map_of (messages st) i"

text \<open>
  \<open>Array.prototype.slice(0, n)\<close>: a negative \<open>n\<close> counts from the end.
\<close>

definition slice0 :: "int \<Rightarrow> 'a list \<Rightarrow> 'a list" where
  "slice0 n xs = (if n < 0 then take (nat (int (length xs) + n)) xs else take (nat n) xs)"

fun findIndex :: "('a \<Rightarrow> bool) \<Rightarrow> 'a list \<Rightarrow> nat option" where
  "findIndex P [] = None"
| "findIndex P (x # xs) = (if P x then Some 0 else map_option Suc (findIndex P xs))"

text \<open>
  \<open>findMany\<close> as the messages route calls it: \<open>orderBy: { createdAt: "desc" }\<close> (a stable
  sort under \<open>b - a\<close>), an optional cursor with \<open>skip: 1\<close>, and \<open>take\<close> (\<open>None\<close> is
  \<open>NaN\<close>; \<open>NaN\<close> and \<open>0\<close> are falsy and take everything). Each row comes with its sender.
\<close>

definition message_findMany ::
  "storage \<Rightarrow> jsstring \<Rightarrow> int option \<Rightarrow> jsstring option \<Rightarrow> (message \<times> user option) list" where
  "message_findMany st chatId take_opt cursor =
     (let ms0 = filter (\<lambda>m. m_chatId m = chatId) (map snd (messages st));
          ms1 = sort_key (\<lambda>m. - m_createdAt m) ms0;
          ms2 = (case orNull cursor of
                   None \<Rightarrow> ms1
                 | Some c \<Rightarrow>
                     (case findIndex (\<lambda>m. m_id m = c) ms1 of
                        None \<Rightarrow> ms1
                      | Some cursorIndex \<Rightarrow> drop (cursorIndex + 1) ms1));
          ms3 = (case take_opt of
                   None \<Rightarrow> ms2
                 | Some n \<Rightarrow> if n = 0 then ms2 else slice0 n ms2)
      in map (\<lambda>m. (m, map_of (users st) (m_senderId m))) ms3)"

definition message_update ::
  "storage \<Rightarrow> jsstring \<Rightarrow> jsstring \<Rightarrow> jsstring \<Rightarrow> jsstring \<Rightarrow> storage" where
  "message_update st i ciphertext iv contentType =
     (case map_of (messages st) i of
        None \<Rightarrow> st
      | Some message \<Rightarrow>
          st\<lparr>messages := AList.update i
                (message\<lparr>m_ciphertext := ciphertext, m_iv := iv, m_contentType := contentType\<rparr>)
                (messages st)\<rparr>)"

text \<open>
  \<open>deleteEvent.findMany\<close>: \<open>delivered\<close> and the \<open>timestamp: { gt }\<close> bound are optional, and
  \<open>orderBy: { timestamp: "asc" }\<close> sorts under \<open>a.timestamp.getTime() - b.timestamp.getTime()\<close>.
\<close>

definition deleteEvent_where :: "jsstring \<Rightarrow> bool option \<Rightarrow> js_date option \<Rightarrow> deleteEvent \<Rightarrow> bool" where
  "deleteEvent_where chatId delivered gt e =
     (\<not> de_chatId e \<noteq> chatId
      \<and> (case delivered of None \<Rightarrow> True | Some d \<Rightarrow> \<not> de_delivered e \<noteq> d)
      \<and> (case gt of None \<Rightarrow> True | Some t \<Rightarrow> \<not> date_le (de_timestamp e) t))"

definition timestamp_compare :: "deleteEvent \<Rightarrow> deleteEvent \<Rightarrow> int option" where
  "timestamp_compare a b =
     (case (de_timestamp a, de_timestamp b) of (Some x, Some y) \<Rightarrow> Some (x - y) | _ \<Rightarrow> None)"

definition deleteEvent_findMany ::
  "storage \<Rightarrow> jsstring \<Rightarrow> bool option \<Rightarrow> js_date option \<Rightarrow> bool \<Rightarrow> deleteEvent list" where
  "deleteEvent_findMany st chatId delivered gt orderByTimestampAsc =
     (let events = filter (deleteEvent_where chatId delivered gt) (map snd (deleteEvents st))
      in if orderByTimestampAsc then Array_sort timestamp_compare events else events)"

definition deleteEvent_create ::
  "storage \<Rightarrow> jsstring \<Rightarrow> date \<Rightarrow> jsstring \<Rightarrow> jsstring \<Rightarrow> jsstring \<Rightarrow> jsstring \<Rightarrow> js_date
     \<Rightarrow> deleteEvent \<times> storage" where
  "deleteEvent_create st newId createdAt messageId chatId senderId signature timestamp =
     (let event = \<lparr>de_id = newId, de_messageId = messageId, de_chatId = chatId,
                   de_senderId = senderId, de_signature = signature, de_timestamp = timestamp,
                   de_createdAt = createdAt, de_delivered = False\<rparr>
      in (event, st\<lparr>deleteEvents := AList.update newId event (deleteEvents st)\<rparr>))"

definition deleteEvent_setDelivered ::
  "jsstring \<Rightarrow> (jsstring \<times> deleteEvent) list \<Rightarrow> (jsstring \<times> deleteEvent) list" where
  "deleteEvent_setDelivered i tbl =
     (case map_of tbl i of
        None \<Rightarrow> tbl
      | Some e \<Rightarrow> AList.update i (e\<lparr>de_delivered := True\<rparr>) tbl)"

definition deleteEvent_updateMany :: "storage \<Rightarrow> jsstring list \<Rightarrow> storage" where
  "deleteEvent_updateMany st ids =
     st\<lparr>deleteEvents := fold deleteEvent_setDelivered ids (deleteEvents st)\<rparr>"

subsection \<open>\<open>POST /api/delete\<close>\<close>

text \<open>
  \<open>getSession()\<close> gives \<open>null\<close> or a session, whose \<open>user\<close> is the row of its user id if
  there is one: \<open>Some None\<close> is a session without user, on which \<open>session.user!.id\<close>
  throws and the handler answers 500.
\<close>

record deleteEventView =
  dv_id :: jsstring
  dv_messageId :: jsstring
  dv_chatId :: jsstring
  dv_senderId :: jsstring
  dv_signature :: jsstring
  dv_timestamp :: js_date

definition deleteEventView_of :: "deleteEvent \<Rightarrow> deleteEventView" where
  "deleteEventView_of e = \<lparr>dv_id = de_id e, dv_messageId = de_messageId e,
     dv_chatId = de_chatId e, dv_senderId = de_senderId e, dv_signature = de_signature e,
     dv_timestamp = de_timestamp e\<rparr>"

record delete_post_request =
  dp_session :: "jsstring option option"
  dp_messageId :: "jsstring option"
  dp_chatId :: "jsstring option"
  dp_signature :: "jsstring option"
  dp_timestamp :: js_value
  dp_now :: date
  dp_newId :: jsstring
  dp_createdAt :: date

text \<open>
  \<open>new Date(timestamp || Date.now())\<close>, for whatever the body holds as \<open>timestamp\<close>;
  \<open>Date.now()\<close> is a whole number of milliseconds.
\<close>

definition timestamp_or_now :: "(jsstring \<Rightarrow> js_number) \<Rightarrow> js_value \<Rightarrow> date \<Rightarrow> js_date" where
  "timestamp_or_now parse timestamp now =
     new_Date parse (if js_truthy timestamp then timestamp else JsNumber (Finite now 0))"

definition delete_POST ::
  "(jsstring \<Rightarrow> js_number) \<Rightarrow> storage \<Rightarrow> delete_post_request
     \<Rightarrow> (http_error + deleteEventView) \<times> storage" where
  "delete_POST parse st req =
     (case dp_session req of
        None \<Rightarrow> (Inl (HttpError 401 ''Unauthorized''), st)
      | Some session \<Rightarrow>
          (case (orNull (dp_messageId req), orNull (dp_chatId req), orNull (dp_signature req)) of
             (Some messageId, Some chatId, Some signature) \<Rightarrow>
               (case session of
                  None \<Rightarrow> (Inl (HttpError 500 ''Failed to delete message''), st)
                | Some userId \<Rightarrow>
                    (case chatMember_findUnique st chatId userId of
                       None \<Rightarrow> (Inl (HttpError 403 ''Access denied''), st)
                     | Some membership \<Rightarrow>
                         (case message_findUnique st messageId of
                            None \<Rightarrow> (Inl (HttpError 404 ''Message not found''), st)
                          | Some message \<Rightarrow>
                              if m_senderId message \<noteq> userId
                              then (Inl (HttpError 403 ''Can only delete your own messages''), st)
                              else
                                (let (deleteEvent, st1) =
                                       deleteEvent_create st (dp_newId req) (dp_createdAt req)
                                         messageId chatId userId signature
                                         (timestamp_or_now parse (dp_timestamp req) (dp_now req));
                                     st2 = message_update st1 messageId [] [] (js ''deleted'')
                                 in (Inr (deleteEventView_of deleteEvent), st2)))))
           | _ \<Rightarrow> (Inl (HttpError 400 ''Message ID, chat ID, and signature are required''), st)))"

subsection \<open>\<open>GET /api/delete\<close>\<close>

record pendingDelete =
  pd_id :: jsstring
  pd_messageId :: jsstring
  pd_chatId :: jsstring
  pd_senderId :: jsstring
  pd_signature :: jsstring
  pd_timestamp :: js_date
  pd_senderPublicKey :: "jsstring option"

text \<open>
  \<open>event.sender?.publicKey\<close>, the sender being the user row that \<open>include\<close> joined in.
\<close>

definition pendingDelete_of :: "storage \<Rightarrow> deleteEvent \<Rightarrow> pendingDelete" where
  "pendingDelete_of st event = \<lparr>pd_id = de_id event, pd_messageId = de_messageId event,
     pd_chatId = de_chatId event, pd_senderId = de_senderId event,
     pd_signature = de_signature event, pd_timestamp = de_timestamp event,
     pd_senderPublicKey =
       (case map_of (users st) (de_senderId event) of
          None \<Rightarrow> None
        | Some sender \<Rightarrow> u_publicKey sender)\<rparr>"

text \<open>
  \<open>since\<close> is the query parameter after \<open>new Date(since)\<close>: \<open>None\<close> when it is absent or
  empty (no bound), \<open>Some None\<close> when it is not a date (an Invalid Date as bound).
\<close>

record delete_get_request =
  dg_session :: "jsstring option option"
  dg_chatId :: "jsstring option"
  dg_since :: "js_date option"

definition delete_GET :: "storage \<Rightarrow> delete_get_request \<Rightarrow> http_error + pendingDelete list" where
  "delete_GET st req =
     (case dg_session req of
        None \<Rightarrow> Inl (HttpError 401 ''Unauthorized'')
      | Some session \<Rightarrow>
          (case orNull (dg_chatId req) of
             None \<Rightarrow> Inl (HttpError 400 ''Chat ID required'')
           | Some chatId \<Rightarrow>
               (case session of
                  None \<Rightarrow> Inl (HttpError 500 ''Failed to fetch delete events'')
                | Some userId \<Rightarrow>
                    (case chatMember_findUnique st chatId userId of
                       None \<Rightarrow> Inl (HttpError 403 ''Access denied'')
                     | Some membership \<Rightarrow>
                         Inr (map (pendingDelete_of st)
                                (deleteEvent_findMany st chatId None (dg_since req) True))))))"

subsection \<open>\<open>GET /api/messages\<close>\<close>

text \<open>
  \<open>limit\<close> is what \<open>parseInt\<close> made of the query parameter (\<open>None\<close> is \<open>NaN\<close>).
  \<open>messages.reverse()\<close> reverses the array in place before \<open>nextCursor\<close> reads its last
  element, so the cursor is the id of the newest message of the page.
\<close>

record messages_get_request =
  mg_session :: "jsstring option option"
  mg_chatId :: "jsstring option"
  mg_cursor :: "jsstring option"
  mg_limit :: "int option"

record messages_response =
  mr_messages :: "(message \<times> user option) list"
  mr_deleteEvents :: "deleteEvent list"
  mr_nextCursor :: "jsstring option"

definition messages_GET ::
  "storage \<Rightarrow> messages_get_request \<Rightarrow> (http_error + messages_response) \<times> storage" where
  "messages_GET st req =
     (case mg_session req of
        None \<Rightarrow> (Inl (HttpError 401 ''Unauthorized''), st)
      | Some session \<Rightarrow>
          (case orNull (mg_chatId req) of
             None \<Rightarrow> (Inl (HttpError 400 ''Chat ID required''), st)
           | Some chatId \<Rightarrow>
               (case session of
                  None \<Rightarrow> (Inl (HttpError 500 ''Failed to fetch messages''), st)
                | Some userId \<Rightarrow>
                    (case chatMember_findUnique st chatId userId of
                       None \<Rightarrow> (Inl (HttpError 403 ''Access denied''), st)
                     | Some membership \<Rightarrow>
                         (let messages = message_findMany st chatId (mg_limit req) (mg_cursor req);
                              deleteEvents = deleteEvent_findMany st chatId (Some False) None False;
                              st' = (if length deleteEvents > 0
                                     then deleteEvent_updateMany st (map de_id deleteEvents)
                                     else st);
                              reversed = rev messages
                          in (Inr \<lparr>mr_messages = reversed,
                                   mr_deleteEvents = deleteEvents,
                                   mr_nextCursor =
                                     (if Some (int (length reversed)) = mg_limit req
                                      then (if reversed = [] then None
                                            else Some (m_id (fst (last reversed))))
                                      else None)\<rparr>,
                              st'))))))"

subsection \<open>Well-formed delete event tables\<close>

definition delete_table_ok :: "(jsstring \<times> deleteEvent) list \<Rightarrow> bool" where
  "delete_table_ok tbl = (distinct (map fst tbl) \<and> (\<forall>(k, e) \<in> set tbl. de_id e = k))"

text \<open>The delete events a poll of the chat returns, and the table after it has marked them.\<close>

definition undelivered :: "storage \<Rightarrow> jsstring \<Rightarrow> deleteEvent list" where
  "undelivered st c = filter (\<lambda>e. de_chatId e = c \<and> \<not> de_delivered e) (map snd (deleteEvents st))"

definition mark_delivered :: "jsstring \<Rightarrow> (jsstring \<times> deleteEvent) list \<Rightarrow> (jsstring \<times> deleteEvent) list" where
  "mark_delivered c tbl =
     map (\<lambda>(k, e). if de_chatId e = c \<and> \<not> de_delivered e
                     then (k, e\<lparr>de_delivered := True\<rparr>) else (k, e)) tbl"

section \<open>Platform functions the client code calls\<close>

text \<open>
  The browser functions that \<open>hooks/use-crypto\<close> and \<open>lib/delete-message\<close> call, as their
  standards define them: \<open>btoa\<close> and \<open>atob\<close> (HTML, forgiving base64), \<open>TextEncoder\<close> and
  \<open>TextDecoder\<close> (Encoding, UTF-8), \<open>JSON.stringify\<close> and \<open>String.fromCharCode\<close>
  (ECMAScript). An exception is a value on the left of a sum. The cryptographic
  operations of \<open>crypto.subtle\<close> are parameters of the functions that call them.
\<close>

datatype js_error = InvalidCharacterError | RangeError | OperationError | DataError | OtherError

definition bindE :: "'e + 'a \<Rightarrow> ('a \<Rightarrow> 'e + 'b) \<Rightarrow> 'e + 'b" where
  "bindE m f = (case m of Inl e \<Rightarrow> Inl e | Inr x \<Rightarrow> f x)"

subsection \<open>Binary strings\<close>

text \<open>
  \<open>String.fromCharCode(...bytes)\<close> passes one argument per byte; beyond the engine's limit
  on the number of arguments of a call, \<open>max_args\<close>, the call throws a \<open>RangeError\<close>.
\<close>

definition fromCharCode_spread :: "nat \<Rightarrow> bytes \<Rightarrow> js_error + jsstring" where
  "fromCharCode_spread max_args bs =
     (if length bs > max_args then Inl RangeError else Inr (map ucast bs))"

text \<open>\<open>Uint8Array.from(s, (c) => c.charCodeAt(0))\<close>: each code unit modulo 256.\<close>

definition Uint8Array_from :: "jsstring \<Rightarrow> bytes" where
  "Uint8Array_from s = map ucast s"

subsection \<open>Base64\<close>

text \<open>The alphabet: \<open>A\<close>--\<open>Z\<close>, \<open>a\<close>--\<open>z\<close>, \<open>0\<close>--\<open>9\<close>, \<open>+\<close> and \<open>/\<close>.\<close>

definition b64char :: "nat \<Rightarrow> 16 word" where
  "b64char n =
     (if n < 26 then of_nat (65 + n)
      else if n < 52 then of_nat (71 + n)
      else if n < 62 then of_nat (n - 4)
      else if n = 62 then 43
      else 47)"

definition b64pad :: "16 word" where
  "b64pad = 61"

text \<open>The value of a base64 character, by the ranges of the alphabet.\<close>

definition b64index :: "16 word \<Rightarrow> nat option" where
  "b64index c =
     (let n = unat c in
      if 65 \<le> n \<and> n \<le> 90 then Some (n - 65)
      else if 97 \<le> n \<and> n \<le> 122 then Some (n - 71)
      else if 48 \<le> n \<and> n \<le> 57 then Some (n + 4)
      else if n = 43 then Some 62
      else if n = 47 then Some 63
      else None)"

text \<open>Three bytes give four 6-bit groups; a last group of one or two bytes gives two or three.\<close>

fun sextets_of :: "nat list \<Rightarrow> nat list" where
  "sextets_of (a # b # c # rest) =
     [a div 4, (a mod 4) * 16 + b div 16, (b mod 16) * 4 + c div 64, c mod 64] @ sextets_of rest"
| "sextets_of [a, b] = [a div 4, (a mod 4) * 16 + b div 16, (b mod 16) * 4]"
| "sextets_of [a] = [a div 4, (a mod 4) * 16]"
| "sextets_of [] = []"

definition base64_encode :: "bytes \<Rightarrow> jsstring" where
  "base64_encode bs =
     map b64char (sextets_of (map unat bs)) @ replicate ((3 - length bs mod 3) mod 3) b64pad"

text \<open>\<open>btoa\<close> takes a binary string: a code unit above 255 is an \<open>InvalidCharacterError\<close>.\<close>

definition btoa :: "jsstring \<Rightarrow> js_error + jsstring" where
  "btoa s = (if \<exists>c \<in> set s. 255 < unat c then Inl InvalidCharacterError
            else Inr (base64_encode (map ucast s)))"

text \<open>
  \<open>atob\<close> is the forgiving decoder: ASCII whitespace is removed; if the length is then a
  multiple of 4, one or two final \<open>=\<close> are removed; a length of 1 modulo 4 or a character
  outside the alphabet is an \<open>InvalidCharacterError\<close>; the bits left over in a last group of
  two or three characters are dropped unchecked.
\<close>

definition is_ascii_whitespace :: "16 word \<Rightarrow> bool" where
  "is_ascii_whitespace c = (c = 9 \<or> c = 10 \<or> c = 12 \<or> c = 13 \<or> c = 32)"

definition strip_padding :: "jsstring \<Rightarrow> jsstring" where
  "strip_padding s =
     (if 2 \<le> length s \<and> drop (length s - 2) s = [b64pad, b64pad] then take (length s - 2) s
      else if 1 \<le> length s \<and> drop (length s - 1) s = [b64pad] then take (length s - 1) s
      else s)"

fun those_indices :: "16 word list \<Rightarrow> nat list option" where
  "those_indices [] = Some []"
| "those_indices (c # cs) =
     (case b64index c of
        None \<Rightarrow> None
      | Some n \<Rightarrow> (case those_indices cs of None \<Rightarrow> None | Some ns \<Rightarrow> Some (n # ns)))"

fun bytes_of_sextets :: "nat list \<Rightarrow> nat list" where
  "bytes_of_sextets (s0 # s1 # s2 # s3 # rest) =
     [s0 * 4 + s1 div 16, (s1 mod 16) * 16 + s2 div 4, (s2 mod 4) * 64 + s3]
       @ bytes_of_sextets rest"
| "bytes_of_sextets [s0, s1, s2] = [s0 * 4 + s1 div 16, (s1 mod 16) * 16 + s2 div 4]"
| "bytes_of_sextets [s0, s1] = [s0 * 4 + s1 div 16]"
| "bytes_of_sextets [s0] = []"
| "bytes_of_sextets [] = []"

definition atob :: "jsstring \<Rightarrow> js_error + jsstring" where
  "atob data =
     (let d1 = filter (\<lambda>c. \<not> is_ascii_whitespace c) data;
          d2 = (if length d1 mod 4 = 0 then strip_padding d1 else d1)
      in if length d2 mod 4 = 1 then Inl InvalidCharacterError
         else (case those_indices d2 of
                 None \<Rightarrow> Inl InvalidCharacterError
               | Some sextets \<Rightarrow> Inr (map of_nat (bytes_of_sextets sextets))))"

subsection \<open>UTF-16 and UTF-8\<close>

definition is_lead :: "16 word \<Rightarrow> bool" where
  "is_lead u = (0xD800 \<le> unat u \<and> unat u \<le> 0xDBFF)"

definition is_trail :: "16 word \<Rightarrow> bool" where
  "is_trail u = (0xDC00 \<le> unat u \<and> unat u \<le> 0xDFFF)"

text \<open>
  The scalar values of a string as \<open>TextEncoder\<close> reads it: a surrogate pair is one code
  point, a surrogate that is not part of a pair becomes U+FFFD.
\<close>

fun scalar_values :: "jsstring \<Rightarrow> nat list" where
  "scalar_values [] = []"
| "scalar_values [u] = (if is_lead u \<or> is_trail u then [0xFFFD] else [unat u])"
| "scalar_values (u # v # rest) =
     (if is_lead u then
        (if is_trail v
         then (0x10000 + (unat u - 0xD800) * 0x400 + (unat v - 0xDC00)) # scalar_values rest
         else 0xFFFD # scalar_values (v # rest))
      else if is_trail u then 0xFFFD # scalar_values (v # rest)
      else unat u # scalar_values (v # rest))"

definition utf8_bytes :: "nat \<Rightarrow> nat list" where
  "utf8_bytes cp =
     (if cp < 0x80 then [cp]
      else if cp < 0x800 then [0xC0 + cp div 64, 0x80 + cp mod 64]
      else if cp < 0x10000 then [0xE0 + cp div 4096, 0x80 + (cp div 64) mod 64, 0x80 + cp mod 64]
      else [0xF0 + cp div 262144, 0x80 + (cp div 4096) mod 64, 0x80 + (cp div 64) mod 64,
            0x80 + cp mod 64])"

definition TextEncoder_encode :: "jsstring \<Rightarrow> bytes" where
  "TextEncoder_encode s = map of_nat (concat (map utf8_bytes (scalar_values s)))"

text \<open>
  The UTF-8 decoder of \<open>new TextDecoder()\<close>, not fatal: the state is the code point so
  far, the number of continuation bytes still needed and the bounds for the next byte; a
  byte outside the bounds ends the sequence with U+FFFD and is read again from the initial
  state, and input that ends inside a sequence gives a final U+FFFD.
\<close>

fun utf8_decode :: "nat \<Rightarrow> nat \<Rightarrow> nat \<Rightarrow> nat \<Rightarrow> nat list \<Rightarrow> nat list" where
  "utf8_decode cp needed lower upper [] = (if needed \<noteq> 0 then [0xFFFD] else [])"
| "utf8_decode cp needed lower upper (b # bs) =
     (if needed \<noteq> 0 \<and> lower \<le> b \<and> b \<le> upper then
        (if needed = 1 then (cp * 64 + b mod 64) # utf8_decode 0 0 0x80 0xBF bs
         else utf8_decode (cp * 64 + b mod 64) (needed - 1) 0x80 0xBF bs)
      else
        (if needed \<noteq> 0 then [0xFFFD] else []) @
        (if b \<le> 0x7F then b # utf8_decode 0 0 0x80 0xBF bs
         else if 0xC2 \<le> b \<and> b \<le> 0xDF then utf8_decode (b mod 32) 1 0x80 0xBF bs
         else if 0xE0 \<le> b \<and> b \<le> 0xEF then
           utf8_decode (b mod 16) 2 (if b = 0xE0 then 0xA0 else 0x80)
             (if b = 0xED then 0x9F else 0xBF) bs
         else if 0xF0 \<le> b \<and> b \<le> 0xF4 then
           utf8_decode (b mod 8) 3 (if b = 0xF0 then 0x90 else 0x80)
             (if b = 0xF4 then 0x8F else 0xBF) bs
         else 0xFFFD # utf8_decode 0 0 0x80 0xBF bs))"

definition utf16_units :: "nat \<Rightarrow> jsstring" where
  "utf16_units cp =
     (if cp < 0x10000 then [of_nat cp]
      else [of_nat (0xD800 + (cp - 0x10000) div 0x400), of_nat (0xDC00 + (cp - 0x10000) mod 0x400)])"

text \<open>With \<open>ignoreBOM\<close> left false, a leading byte order mark is not part of the result.\<close>

definition strip_BOM :: "bytes \<Rightarrow> bytes" where
  "strip_BOM bs = (if take 3 bs = [0xEF, 0xBB, 0xBF] then drop 3 bs else bs)"

definition TextDecoder_decode :: "bytes \<Rightarrow> jsstring" where
  "TextDecoder_decode bs =
     concat (map utf16_units (utf8_decode 0 0 0x80 0xBF (map unat (strip_BOM bs))))"

subsection \<open>\<open>JSON.stringify\<close>\<close>

definition hex_digit :: "nat \<Rightarrow> 16 word" where
  "hex_digit n = (if n < 10 then of_nat (48 + n) else of_nat (87 + n))"

definition unicode_escape :: "16 word \<Rightarrow> jsstring" where
  "unicode_escape u =
     (let n = unat u in
      [92, 117, hex_digit (n div 4096), hex_digit ((n div 256) mod 16),
       hex_digit ((n div 16) mod 16), hex_digit (n mod 16)])"

definition json_escape_unit :: "16 word \<Rightarrow> jsstring" where
  "json_escape_unit u =
     (if u = 8 then [92, 98]
      else if u = 9 then [92, 116]
      else if u = 10 then [92, 110]
      else if u = 12 then [92, 102]
      else if u = 13 then [92, 114]
      else if u = 34 then [92, 34]
      else if u = 92 then [92, 92]
      else if unat u < 32 then unicode_escape u
      else [u])"

text \<open>
  \<open>QuoteJSONString\<close> goes through the code points of the string: a surrogate pair is
  copied, a surrogate outside a pair is written as a \<open>\u\<close> escape.
\<close>

fun quote_units :: "jsstring \<Rightarrow> jsstring" where
  "quote_units [] = []"
| "quote_units [u] = (if is_lead u \<or> is_trail u then unicode_escape u else json_escape_unit u)"
| "quote_units (u # v # rest) =
     (if is_lead u then
        (if is_trail v then u # v # quote_units rest
         else unicode_escape u @ quote_units (v # rest))
      else if is_trail u then unicode_escape u @ quote_units (v # rest)
      else json_escape_unit u @ quote_units (v # rest))"

definition QuoteJSONString :: "jsstring \<Rightarrow> jsstring" where
  "QuoteJSONString s = 34 # quote_units s @ [34]"

text \<open>
  \<open>Number::toString\<close>: a safe integer is printed in decimal. The digits of any other
  finite number are those of the shortest decimal that reads back as the same double, a
  computation on its bits that is left to the parameter \<open>digits\<close>. \<open>JSON.stringify\<close>
  writes a number that is not finite as \<open>null\<close>.
\<close>

function nat_to_dec :: "nat \<Rightarrow> jsstring" where
  "nat_to_dec n = (if n < 10 then [of_nat (48 + n)] else nat_to_dec (n div 10) @ [of_nat (48 + n mod 10)])"
  by pat_completeness auto
termination
  by (relation "measure id") auto

definition int_to_dec :: "int \<Rightarrow> jsstring" where
  "int_to_dec n = (if n < 0 then 45 # nat_to_dec (nat (- n)) else nat_to_dec (nat n))"

definition Number_toString :: "(js_number \<Rightarrow> jsstring) \<Rightarrow> js_number \<Rightarrow> jsstring" where
  "Number_toString digits n =
     (case n of
        Finite m e \<Rightarrow>
          if e = 0 \<and> \<bar>m\<bar> \<le> 9007199254740991 then int_to_dec m else digits n
      | PosInfinity \<Rightarrow> js ''Infinity''
      | NegInfinity \<Rightarrow> js ''-Infinity''
      | NaN \<Rightarrow> js ''NaN'')"

definition JSON_stringify_string :: "jsstring \<Rightarrow> jsstring" where
  "JSON_stringify_string s = QuoteJSONString s"

definition JSON_stringify_number :: "(js_number \<Rightarrow> jsstring) \<Rightarrow> js_number \<Rightarrow> jsstring" where
  "JSON_stringify_number digits n =
     (case n of Finite m e \<Rightarrow> Number_toString digits n | _ \<Rightarrow> js ''null'')"

fun join_comma :: "jsstring list \<Rightarrow> jsstring" where
  "join_comma [] = []"
| "join_comma [p] = p"
| "join_comma (p # q # ps) = p @ 44 # join_comma (q # ps)"

text \<open>
  An object literal whose properties, in order, have the given serialisations, with no
  indentation.
\<close>

definition JSON_stringify_object :: "(string \<times> jsstring) list \<Rightarrow> jsstring" where
  "JSON_stringify_object props =
     123 # join_comma (map (\<lambda>(k, v). QuoteJSONString (js k) @ 58 # v) props) @ [125]"

section \<open>Signing and verifying (\<open>hooks/use-crypto\<close>)\<close>

text \<open>
  \<open>subtle_sign\<close>, \<open>subtle_verify\<close> and \<open>subtle_importKey\<close> stand for
  \<open>crypto.subtle.sign\<close>, \<open>verify\<close> (both ECDSA with SHA-256) and \<open>importKey\<close> (\<open>spki\<close>,
  P-256); \<open>subtle_sign\<close> is the operation of one call, its randomness included.
\<close>

definition signData ::
  "nat \<Rightarrow> ('sk \<Rightarrow> bytes \<Rightarrow> js_error + bytes) \<Rightarrow> jsstring \<Rightarrow> 'sk \<Rightarrow> js_error + jsstring" where
  "signData max_args subtle_sign data privateKey =
     (let dataBuffer = TextEncoder_encode data in
      bindE (subtle_sign privateKey dataBuffer) (\<lambda>signature.
      bindE (fromCharCode_spread max_args signature) btoa))"

definition verifySignature ::
  "('pk \<Rightarrow> bytes \<Rightarrow> bytes \<Rightarrow> js_error + bool) \<Rightarrow> jsstring \<Rightarrow> jsstring \<Rightarrow> 'pk \<Rightarrow> js_error + bool" where
  "verifySignature subtle_verify data signature publicKey =
     (let dataBuffer = TextEncoder_encode data in
      bindE (atob signature) (\<lambda>binary.
      subtle_verify publicKey (Uint8Array_from binary) dataBuffer))"

definition importPublicKey :: "(bytes \<Rightarrow> js_error + 'pk) \<Rightarrow> jsstring \<Rightarrow> js_error + 'pk" where
  "importPublicKey subtle_importKey base64Key =
     bindE (atob base64Key) (\<lambda>binary. subtle_importKey (Uint8Array_from binary))"

section \<open>Signed deletion (\<open>lib/delete-message\<close>)\<close>

record deleteControlMessage =
  dcm_messageId :: jsstring
  dcm_chatId :: jsstring
  dcm_senderId :: jsstring
  dcm_signature :: jsstring
  dcm_timestamp :: js_number

definition delete_payload ::
  "(js_number \<Rightarrow> jsstring) \<Rightarrow> jsstring \<Rightarrow> jsstring \<Rightarrow> jsstring \<Rightarrow> js_number \<Rightarrow> jsstring" where
  "delete_payload digits messageId chatId senderId timestamp =
     JSON_stringify_object
       [(''messageId'', JSON_stringify_string messageId), (''chatId'', JSON_stringify_string chatId),
        (''senderId'', JSON_stringify_string senderId),
        (''timestamp'', JSON_stringify_number digits timestamp)]"

text \<open>\<open>now\<close> is the one reading of \<open>Date.now()\<close>, a whole number of milliseconds.\<close>

definition createDeleteEvent ::
  "(js_number \<Rightarrow> jsstring) \<Rightarrow> nat \<Rightarrow> ('sk \<Rightarrow> bytes \<Rightarrow> js_error + bytes) \<Rightarrow> date
     \<Rightarrow> jsstring \<Rightarrow> jsstring \<Rightarrow> jsstring \<Rightarrow> 'sk \<Rightarrow> js_error + deleteControlMessage" where
  "createDeleteEvent digits max_args subtle_sign now messageId chatId senderId signingPrivateKey =
     (let timestamp = Finite now 0;
          dataToSign = delete_payload digits messageId chatId senderId timestamp
      in bindE (signData max_args subtle_sign dataToSign signingPrivateKey) (\<lambda>signature.
         Inr \<lparr>dcm_messageId = messageId, dcm_chatId = chatId, dcm_senderId = senderId,
              dcm_signature = signature, dcm_timestamp = timestamp\<rparr>))"

text \<open>The \<open>try\<close> block as a value, and the function, whose \<open>catch\<close> turns every exception into \<open>false\<close>.\<close>

definition verifyDeleteEvent_try ::
  "(js_number \<Rightarrow> jsstring) \<Rightarrow> (bytes \<Rightarrow> js_error + 'pk)
     \<Rightarrow> ('pk \<Rightarrow> bytes \<Rightarrow> bytes \<Rightarrow> js_error + bool)
     \<Rightarrow> deleteControlMessage \<Rightarrow> jsstring \<Rightarrow> js_error + bool" where
  "verifyDeleteEvent_try digits subtle_importKey subtle_verify deleteEvent senderPublicKeyBase64 =
     bindE (importPublicKey subtle_importKey senderPublicKeyBase64) (\<lambda>publicKey.
       (let dataToVerify = delete_payload digits (dcm_messageId deleteEvent) (dcm_chatId deleteEvent)
                             (dcm_senderId deleteEvent) (dcm_timestamp deleteEvent)
        in verifySignature subtle_verify dataToVerify (dcm_signature deleteEvent) publicKey))"

definition verifyDeleteEvent ::
  "(js_number \<Rightarrow> jsstring) \<Rightarrow> (bytes \<Rightarrow> js_error + 'pk)
     \<Rightarrow> ('pk \<Rightarrow> bytes \<Rightarrow> bytes \<Rightarrow> js_error + bool)
     \<Rightarrow> deleteControlMessage \<Rightarrow> jsstring \<Rightarrow> bool" where
  "verifyDeleteEvent digits subtle_importKey subtle_verify deleteEvent senderPublicKeyBase64 =
     (case verifyDeleteEvent_try digits subtle_importKey subtle_verify deleteEvent senderPublicKeyBase64 of
        Inl error \<Rightarrow> False
      | Inr valid \<Rightarrow> valid)"

record deleteEventWithKey = deleteControlMessage +
  senderPublicKey :: "jsstring option"

text \<open>
  The loop of \<open>processDeleteEvents\<close>. The local store is a \<open>Map\<close>; \<open>onDelete\<close> acts on
  the state of the caller, \<open>ui\<close>.
\<close>

fun processDeleteEvents_loop ::
  "(js_number \<Rightarrow> jsstring) \<Rightarrow> (bytes \<Rightarrow> js_error + 'pk) \<Rightarrow> ('pk \<Rightarrow> bytes \<Rightarrow> bytes \<Rightarrow> js_error + bool)
     \<Rightarrow> (jsstring \<Rightarrow> 'ui \<Rightarrow> 'ui) \<Rightarrow> deleteEventWithKey list
     \<Rightarrow> (jsstring \<times> 'v) list \<Rightarrow> 'ui \<Rightarrow> jsstring list
     \<Rightarrow> jsstring list \<times> (jsstring \<times> 'v) list \<times> 'ui" where
  "processDeleteEvents_loop digits subtle_importKey subtle_verify onDelete [] localMessageStore ui deletedIds =
     (deletedIds, localMessageStore, ui)"
| "processDeleteEvents_loop digits subtle_importKey subtle_verify onDelete (event # events) localMessageStore ui deletedIds =
     (case orNull (senderPublicKey event) of
        None \<Rightarrow>
          processDeleteEvents_loop digits subtle_importKey subtle_verify onDelete events localMessageStore ui deletedIds
      | Some key \<Rightarrow>
          (let isValid = verifyDeleteEvent digits subtle_importKey subtle_verify
                 \<lparr>dcm_messageId = dcm_messageId event, dcm_chatId = dcm_chatId event,
                  dcm_senderId = dcm_senderId event, dcm_signature = dcm_signature event,
                  dcm_timestamp = dcm_timestamp event\<rparr> key
           in if \<not> isValid
              then processDeleteEvents_loop digits subtle_importKey subtle_verify onDelete events localMessageStore ui deletedIds
              else if dcm_messageId event \<in> fst ` set localMessageStore
              then processDeleteEvents_loop digits subtle_importKey subtle_verify onDelete events
                     (AList.delete (dcm_messageId event) localMessageStore)
                     (onDelete (dcm_messageId event) ui)
                     (deletedIds @ [dcm_messageId event])
              else processDeleteEvents_loop digits subtle_importKey subtle_verify onDelete events localMessageStore ui deletedIds))"

definition processDeleteEvents ::
  "(js_number \<Rightarrow> jsstring) \<Rightarrow> (bytes \<Rightarrow> js_error + 'pk) \<Rightarrow> ('pk \<Rightarrow> bytes \<Rightarrow> bytes \<Rightarrow> js_error + bool)
     \<Rightarrow> (jsstring \<Rightarrow> 'ui \<Rightarrow> 'ui) \<Rightarrow> deleteEventWithKey list
     \<Rightarrow> (jsstring \<times> 'v) list \<Rightarrow> 'ui
     \<Rightarrow> jsstring list \<times> (jsstring \<times> 'v) list \<times> 'ui" where
  "processDeleteEvents digits subtle_importKey subtle_verify onDelete events localMessageStore ui =
     processDeleteEvents_loop digits subtle_importKey subtle_verify onDelete events localMessageStore ui []"

section \<open>Applying delete events in the chat room (\<open>components/chat-room\<close>)\<close>

record chatDeleteEvent =
  cde_messageId :: jsstring
  cde_senderId :: jsstring
  cde_signature :: jsstring
  cde_senderPublicKey :: "jsstring option"

definition chat_delete_payload :: "jsstring \<Rightarrow> jsstring \<Rightarrow> jsstring" where
  "chat_delete_payload messageId senderId =
     JSON_stringify_object
       [(''messageId'', JSON_stringify_string messageId), (''senderId'', JSON_stringify_string senderId)]"

text \<open>
  \<open>processDeletes\<close>: \<open>newDeleted\<close> is a \<open>Set\<close>, here the list of its elements in insertion
  order; the result is what \<open>setDeletedMessageIds\<close> receives.
\<close>

fun processDeletes_loop ::
  "(bytes \<Rightarrow> js_error + 'pk) \<Rightarrow> ('pk \<Rightarrow> bytes \<Rightarrow> bytes \<Rightarrow> js_error + bool)
     \<Rightarrow> chatDeleteEvent list \<Rightarrow> jsstring list \<Rightarrow> jsstring list" where
  "processDeletes_loop subtle_importKey subtle_verify [] newDeleted = newDeleted"
| "processDeletes_loop subtle_importKey subtle_verify (event # events) newDeleted =
     (if cde_messageId event \<in> set newDeleted
      then processDeletes_loop subtle_importKey subtle_verify events newDeleted
      else
        (case orNull (cde_senderPublicKey event) of
           Some key \<Rightarrow>
             (case bindE (importPublicKey subtle_importKey key) (\<lambda>pubKey.
                     verifySignature subtle_verify
                       (chat_delete_payload (cde_messageId event) (cde_senderId event))
                       (cde_signature event) pubKey) of
                Inl error \<Rightarrow> processDeletes_loop subtle_importKey subtle_verify events newDeleted
              | Inr isValid \<Rightarrow>
                  if isValid
                  then processDeletes_loop subtle_importKey subtle_verify events
                         (newDeleted @ [cde_messageId event])
                  else processDeletes_loop subtle_importKey subtle_verify events newDeleted)
         | None \<Rightarrow>
             processDeletes_loop subtle_importKey subtle_verify events
               (newDeleted @ [cde_messageId event])))"

definition processDeletes ::
  "(bytes \<Rightarrow> js_error + 'pk) \<Rightarrow> ('pk \<Rightarrow> bytes \<Rightarrow> bytes \<Rightarrow> js_error + bool)
     \<Rightarrow> chatDeleteEvent list \<Rightarrow> jsstring list \<Rightarrow> jsstring list" where
  "processDeletes subtle_importKey subtle_verify events deletedMessageIds =
     processDeletes_loop subtle_importKey subtle_verify events deletedMessageIds"

subsection \<open>Which delete events take effect\<close>

text \<open>
  An event passes the checks of \<open>processDeleteEvents\<close> when it carries a public key under
  which \<open>verifyDeleteEvent\<close> accepts it; \<open>processDeletes\<close> adds the message id of an event
  when the event carries no public key, or one under which its signature verifies.
\<close>

definition passes_verification ::
  "(js_number \<Rightarrow> jsstring) \<Rightarrow> (bytes \<Rightarrow> js_error + 'pk) \<Rightarrow> ('pk \<Rightarrow> bytes \<Rightarrow> bytes \<Rightarrow> js_error + bool)
     \<Rightarrow> deleteEventWithKey \<Rightarrow> bool" where
  "passes_verification digits subtle_importKey subtle_verify event =
     (case orNull (senderPublicKey event) of
        None \<Rightarrow> False
      | Some key \<Rightarrow>
          verifyDeleteEvent digits subtle_importKey subtle_verify
            \<lparr>dcm_messageId = dcm_messageId event, dcm_chatId = dcm_chatId event,
             dcm_senderId = dcm_senderId event, dcm_signature = dcm_signature event,
             dcm_timestamp = dcm_timestamp event\<rparr> key)"

definition chat_accepts ::
  "(bytes \<Rightarrow> js_error + 'pk) \<Rightarrow> ('pk \<Rightarrow> bytes \<Rightarrow> bytes \<Rightarrow> js_error + bool)
     \<Rightarrow> chatDeleteEvent \<Rightarrow> bool" where
  "chat_accepts subtle_importKey subtle_verify event =
     (case orNull (cde_senderPublicKey event) of
        None \<Rightarrow> True
      | Some key \<Rightarrow>
          bindE (importPublicKey subtle_importKey key) (\<lambda>pubKey.
            verifySignature subtle_verify
              (chat_delete_payload (cde_messageId event) (cde_senderId event))
              (cde_signature event) pubKey) = Inr True)"

subsection \<open>Well-formed strings\<close>

text \<open>
  A string is well formed when every surrogate in it is part of a pair, a lead followed
  by a trail; a scalar value is a code point that is not a surrogate.
\<close>

fun well_formed :: "jsstring \<Rightarrow> bool" where
  "well_formed [] = True"
| "well_formed [u] = (\<not> is_lead u \<and> \<not> is_trail u)"
| "well_formed (u # v # rest) =
     (if is_lead u then is_trail v \<and> well_formed rest
      else \<not> is_trail u \<and> well_formed (v # rest))"

definition is_scalar :: "nat \<Rightarrow> bool" where
  "is_scalar cp = (cp < 0x110000 \<and> \<not> (0xD800 \<le> cp \<and> cp \<le> 0xDFFF))"

section \<open>Message encryption (\<open>hooks/use-crypto\<close>)\<close>

text \<open>
  \<open>subtle_encrypt\<close> and \<open>subtle_decrypt\<close> stand for \<open>crypto.subtle.encrypt\<close> and \<open>decrypt\<close>
  with AES-GCM, taking key, iv and data. \<open>entropy\<close> is the supply of random bytes that
  \<open>crypto.getRandomValues\<close> writes into the fresh 12-byte array.
\<close>

definition encryptMessage ::
  "nat \<Rightarrow> (nat \<Rightarrow> 8 word) \<Rightarrow> ('k \<Rightarrow> bytes \<Rightarrow> bytes \<Rightarrow> js_error + bytes) \<Rightarrow> jsstring \<Rightarrow> 'k
     \<Rightarrow> js_error + jsstring \<times> jsstring" where
  "encryptMessage max_args entropy subtle_encrypt plaintext key =
     (let data = TextEncoder_encode plaintext;
          iv = map entropy [0..<12]
      in bindE (subtle_encrypt key iv data) (\<lambda>encrypted.
         bindE (bindE (fromCharCode_spread max_args encrypted) btoa) (\<lambda>ciphertext.
         bindE (bindE (fromCharCode_spread max_args iv) btoa) (\<lambda>ivText.
         Inr (ciphertext, ivText)))))"

definition decryptMessage ::
  "('k \<Rightarrow> bytes \<Rightarrow> bytes \<Rightarrow> js_error + bytes) \<Rightarrow> jsstring \<Rightarrow> jsstring \<Rightarrow> 'k \<Rightarrow> js_error + jsstring" where
  "decryptMessage subtle_decrypt ciphertext iv key =
     bindE (atob ciphertext) (\<lambda>binary.
       (let encryptedData = Uint8Array_from binary in
        bindE (atob iv) (\<lambda>ivBinary.
          (let ivData = Uint8Array_from ivBinary in
           bindE (subtle_decrypt key ivData encryptedData) (\<lambda>decrypted.
             Inr (TextDecoder_decode decrypted))))))"

section \<open>Key storage and reset (\<open>hooks/use-crypto\<close>, security settings)\<close>










subsection \<open>A store and requests to evaluate the relay on\<close>

definition demo_signal ::
  "string \<Rightarrow> string \<Rightarrow> string option \<Rightarrow> string \<Rightarrow> date \<Rightarrow> bool \<Rightarrow> date \<Rightarrow> jsstring \<times> signalEvent" where
  "demo_signal i from to type created consumed expires =
     (js i, \<lparr>se_id = js i, se_chatId = js ''chat-1'', se_fromUserId = js from,
             se_toUserId = map_option js to, se_type = js type, se_payload = js ''sdp'',
             se_createdAt = created, se_consumed = consumed, se_expiresAt = expires\<rparr>)"

definition demo_member :: "string \<Rightarrow> string \<Rightarrow> string \<Rightarrow> jsstring \<times> chatMember" where
  "demo_member i chat usr = (js i, \<lparr>cm_id = js i, cm_chatId = js chat, cm_userId = js usr\<rparr>)"

definition demo_storage :: storage where
  "demo_storage =
     \<lparr>users = [],
      chatMembers = [demo_member ''member-1'' ''chat-1'' ''demo-user-1'',
                     demo_member ''member-2'' ''chat-1'' ''other-user-1''],
      messages = [], deleteEvents = [],
      signalEvents =
        [demo_signal ''s1'' ''other-user-1'' (Some ''demo-user-1'') ''answer'' 2000 False 32000,
         demo_signal ''s2'' ''other-user-1'' (Some ''demo-user-1'') ''offer'' 1000 False 31000,
         demo_signal ''s3'' ''other-user-1'' (Some ''demo-user-1'') ''offer'' 500 False 9000,
         demo_signal ''s4'' ''other-user-1'' (Some ''demo-user-1'') ''offer'' 600 True 30600,
         demo_signal ''s5'' ''demo-user-1'' (Some ''other-user-1'') ''offer'' 700 False 30700,
         demo_signal ''s6'' ''other-user-1'' None ''offer'' 800 False 30800]\<rparr>"

definition demo_get :: signal_get_request where
  "demo_get = \<lparr>sg_bearer = None, sg_session = Some (js ''demo-user-1''),
                sg_chatId = Some (js ''chat-1''), sg_now = 10000\<rparr>"

definition demo_post :: signal_post_request where
  "demo_post = \<lparr>sp_bearer = None, sp_session = Some (js ''other-user-1''),
                 sp_type = Some (js ''offer''), sp_payload = Some (js ''sdp''),
                 sp_toUserId = None, sp_chatId = Some (js ''chat-1''),
                 sp_now = 10000, sp_newId = js ''s7'', sp_createdAt = 10000,
                 sp_cleanupAt = 10001\<rparr>"

definition demo_user :: "string \<Rightarrow> string option \<Rightarrow> jsstring \<times> user" where
  "demo_user i key = (js i, \<lparr>u_id = js i, u_publicKey = map_option js key\<rparr>)"

definition demo_message :: message where
  "demo_message = \<lparr>m_id = js ''m1'', m_chatId = js ''chat-1'', m_senderId = js ''demo-user-1'',
     m_ciphertext = js ''3q2+7w=='', m_iv = js ''AAECAwQFBgcICQoL'', m_contentType = js ''text'',
     m_createdAt = 1000\<rparr>"

definition demo_chat :: storage where
  "demo_chat =
     \<lparr>users = [demo_user ''demo-user-1'' (Some ''cGsx''), demo_user ''other-user-1'' (Some ''cGsy'')],
      chatMembers = [demo_member ''member-1'' ''chat-1'' ''demo-user-1'',
                     demo_member ''member-2'' ''chat-1'' ''other-user-1''],
      messages = [(js ''m1'', demo_message)],
      deleteEvents = [], signalEvents = []\<rparr>"

text \<open>A delete request for \<open>m1\<close> from the session of the given user.\<close>

definition demo_delete :: "string \<Rightarrow> string \<Rightarrow> delete_post_request" where
  "demo_delete usr signature =
     \<lparr>dp_session = Some (Some (js usr)), dp_messageId = Some (js ''m1''),
      dp_chatId = Some (js ''chat-1''), dp_signature = Some (js signature),
      dp_timestamp = JsNumber (Finite 2000 0), dp_now = 2001, dp_newId = js ''d1'', dp_createdAt = 2002\<rparr>"

definition demo_poll :: "string \<Rightarrow> messages_get_request" where
  "demo_poll usr = \<lparr>mg_session = Some (Some (js usr)), mg_chatId = Some (js ''chat-1''),
     mg_cursor = None, mg_limit = Some 50\<rparr>"

definition demo_sync :: "string \<Rightarrow> js_date option \<Rightarrow> delete_get_request" where
  "demo_sync usr since = \<lparr>dg_session = Some (Some (js usr)), dg_chatId = Some (js ''chat-1''),
     dg_since = since\<rparr>"

text \<open>A \<open>Date.parse\<close> that reads no string as a date.\<close>

definition demo_parse :: "jsstring \<Rightarrow> js_number" where
  "demo_parse s = NaN"

text \<open>The store after \<open>demo-user-1\<close> has deleted \<open>m1\<close>.\<close>

definition demo_deleted :: storage where
  "demo_deleted = snd (delete_POST demo_parse demo_chat (demo_delete ''demo-user-1'' ''c2ln''))"

definition demo_deleteEvent :: deleteEvent where
  "demo_deleteEvent = \<lparr>de_id = js ''d1'', de_messageId = js ''m1'', de_chatId = js ''chat-1'',
     de_senderId = js ''demo-user-1'', de_signature = js ''c2ln'', de_timestamp = Some 2000,
     de_createdAt = 2002, de_delivered = False\<rparr>"

subsection \<open>A stand-in for the signature primitives\<close>

text \<open>
  To evaluate the client code, a scheme in which the signature of some data under a key
  is the key followed by the data, and the public key of a key pair is its private key.
\<close>

definition toy_sign :: "bytes \<Rightarrow> bytes \<Rightarrow> js_error + bytes" where
  "toy_sign sk data = Inr (sk @ data)"

definition toy_verify :: "bytes \<Rightarrow> bytes \<Rightarrow> bytes \<Rightarrow> js_error + bool" where
  "toy_verify pk signature data = Inr (signature = pk @ data)"

definition toy_importKey :: "bytes \<Rightarrow> js_error + bytes" where
  "toy_importKey spki = (if spki = [] then Inl DataError else Inr spki)"

text \<open>A stand-in for the digits of the numbers that are not safe integers.\<close>

definition demo_digits :: "js_number \<Rightarrow> jsstring" where
  "demo_digits n = js ''1e+21''"



definition demo_key :: bytes where
  "demo_key = [112, 107, 49]"

definition demo_signature :: jsstring where
  "demo_signature =
     base64_encode (demo_key @ TextEncoder_encode
       (delete_payload demo_digits (js ''m1'') (js ''chat-1'') (js ''demo-user-1'') (Finite 2000 0)))"

definition demo_record :: deleteControlMessage where
  "demo_record = \<lparr>dcm_messageId = js ''m1'', dcm_chatId = js ''chat-1'',
     dcm_senderId = js ''demo-user-1'', dcm_signature = demo_signature, dcm_timestamp = Finite 2000 0\<rparr>"

definition demo_event :: "string \<Rightarrow> deleteEventWithKey" where
  "demo_event messageId = \<lparr>dcm_messageId = js messageId, dcm_chatId = js ''chat-1'',
     dcm_senderId = js ''demo-user-1'', dcm_signature = demo_signature, dcm_timestamp = Finite 2000 0,
     senderPublicKey = Some (base64_encode demo_key)\<rparr>"

definition demo_chat_event :: "string option \<Rightarrow> chatDeleteEvent" where
  "demo_chat_event key = \<lparr>cde_messageId = js ''m1'', cde_senderId = js ''demo-user-1'',
     cde_signature = js ''c2ln'', cde_senderPublicKey = map_option js key\<rparr>"

definition demo_local :: "(jsstring \<times> jsstring) list" where
  "demo_local = [(js ''m1'', js ''hello''), (js ''m2'', js ''world'')]"

subsection \<open>A key store to evaluate the reset on\<close>





subsection \<open>A stand-in for the cipher\<close>

text \<open>
  A scheme in which the ciphertext is the key and the iv followed by the data, and
  decryption fails unless key and iv are the ones in front.
\<close>

definition toy_encrypt :: "bytes \<Rightarrow> bytes \<Rightarrow> bytes \<Rightarrow> js_error + bytes" where
  "toy_encrypt key iv data = Inr (key @ iv @ data)"

definition toy_decrypt :: "bytes \<Rightarrow> bytes \<Rightarrow> bytes \<Rightarrow> js_error + bytes" where
  "toy_decrypt key iv encrypted =
     (if take (length key + length iv) encrypted = key @ iv
      then Inr (drop (length key + length iv) encrypted) else Inl OperationError)"

definition demo_entropy :: "nat \<Rightarrow> 8 word" where
  "demo_entropy i = of_nat (7 * i + 1)"

definition demo_aes_key :: bytes where
  "demo_aes_key = [1, 2]"

section \<open>Facts about tables\<close>

lemma map_other_id:
  "i \<notin> fst ` set tbl \<Longrightarrow> map (\<lambda>(k, e). if k = i then (k, f e) else (k, e)) tbl = tbl"
  by (induction tbl) auto

lemma update_map:
  "distinct (map fst tbl) \<Longrightarrow> map_of tbl i = Some e \<Longrightarrow>
   AList.update i (f e) tbl = map (\<lambda>(k, e). if k = i then (k, f e) else (k, e)) tbl"
  by (induction tbl) (auto simp: map_other_id)

lemma mark_row_map:
  assumes "distinct (map fst tbl)"
  shows "(case map_of tbl i of None \<Rightarrow> tbl | Some e \<Rightarrow> AList.update i (f e) tbl)
         = map (\<lambda>(k, e). if k = i then (k, f e) else (k, e)) tbl"
  using assms
  by (auto simp: update_map map_other_id map_of_eq_None_iff split: option.splits)

lemma fold_mark_rows:
  assumes upd: "\<And>i tbl. upd i tbl = (case map_of tbl i of None \<Rightarrow> tbl | Some e \<Rightarrow> AList.update i (f e) tbl)"
    and idem: "\<And>e. f (f e) = f e"
    and d: "distinct (map fst tbl)"
  shows "fold upd ids tbl = map (\<lambda>(k, e). if k \<in> set ids then (k, f e) else (k, e)) tbl"
  using d
proof (induction ids arbitrary: tbl)
  case Nil
  then show ?case by (simp add: case_prod_unfold)
next
  case (Cons i ids)
  have t: "upd i tbl = map (\<lambda>(k, e). if k = i then (k, f e) else (k, e)) tbl"
    unfolding upd using Cons.prems by (rule mark_row_map)
  have "map fst (upd i tbl) = map fst tbl"
    unfolding t by (induction tbl) auto
  then have d: "distinct (map fst (upd i tbl))" using Cons.prems by simp
  show ?case
    unfolding fold_simps Cons.IH [OF d] unfolding t
    by (auto simp: case_prod_unfold idem)
qed


lemma in_updateD:
  "(k', e) \<in> set (AList.update k v al) \<Longrightarrow> (k', e) \<in> set al \<or> (k' = k \<and> e = v)"
  by (induction al) (auto split: if_splits)

lemma in_update_other:
  "(k, e) \<in> set al \<Longrightarrow> k \<noteq> k' \<Longrightarrow> (k, e) \<in> set (AList.update k' v al)"
  by (induction al) auto

lemma in_update_self: "(k, v) \<in> set (AList.update k v al)"
  by (induction al) auto

lemma disjoint_insert_sub:
  "A \<subseteq> insert n B \<Longrightarrow> P \<inter> B = {} \<Longrightarrow> n \<notin> P \<Longrightarrow> P \<inter> A = {}"
  by blast

lemma disjoint_Un2: "P \<inter> A = {} \<Longrightarrow> P \<inter> B = {} \<Longrightarrow> P \<inter> (A \<union> B) = {}"
  by blast


section \<open>Properties of the signaling relay\<close>

lemma fold_setConsumed:
  "distinct (map fst tbl) \<Longrightarrow>
   fold signalEvent_setConsumed ids tbl
     = map (\<lambda>(k, e). if k \<in> set ids then (k, e\<lparr>se_consumed := True\<rparr>) else (k, e)) tbl"
  by (rule fold_mark_rows [where f = "\<lambda>e. e\<lparr>se_consumed := True\<rparr>"])
     (simp_all add: signalEvent_setConsumed_def)

lemma signalEvent_where_iff:
  "signalEvent_where c u False now e \<longleftrightarrow>
     se_chatId e = c \<and> se_toUserId e = Some u \<and> \<not> se_consumed e \<and> now < se_expiresAt e"
  by (auto simp: signalEvent_where_def)

lemma fetch_signals_fst:
  "fst (fetch_signals st c u now) =
     sort_key se_createdAt (filter (signalEvent_where c u False now) (map snd (signalEvents st)))"
  by (simp add: fetch_signals_def signalEvent_findMany_def Let_def)

lemma table_ok_id_mem:
  assumes "table_ok tbl" "(k, e) \<in> set tbl"
  shows "k \<in> se_id ` {e \<in> snd ` set tbl. P e} \<longleftrightarrow> P e"
proof
  assume "k \<in> se_id ` {e \<in> snd ` set tbl. P e}"
  then obtain k' e' where e': "(k', e') \<in> set tbl" "P e'" "se_id e' = k" by auto
  with assms have "k' = k" by (auto simp: table_ok_def)
  with e' assms have "e' = e" by (auto simp: table_ok_def dest: eq_key_imp_eq_value)
  with e' show "P e" by simp
next
  assume "P e"
  with assms show "k \<in> se_id ` {e \<in> snd ` set tbl. P e}"
    by (force simp: table_ok_def)
qed

lemma fetch_signals_snd:
  assumes "table_ok (signalEvents st)"
  shows "snd (fetch_signals st c u now) = st\<lparr>signalEvents := mark_fetched c u now (signalEvents st)\<rparr>"
proof -
  let ?P = "signalEvent_where c u False now"
  let ?L = "signalEvent_findMany st c u False now"
  have setL: "set (map se_id ?L) = se_id ` {e \<in> snd ` set (signalEvents st). ?P e}"
    by (auto simp: signalEvent_findMany_def)
  have d: "distinct (map fst (signalEvents st))" using assms by (simp add: table_ok_def)
  have upd: "fold signalEvent_setConsumed (map se_id ?L) (signalEvents st)
               = mark_fetched c u now (signalEvents st)"
    unfolding fold_setConsumed [OF d] mark_fetched_def setL
  proof (rule map_cong [OF refl])
    fix x assume x: "x \<in> set (signalEvents st)"
    obtain k e where ke: "x = (k, e)" by (cases x)
    from table_ok_id_mem [OF assms x [unfolded ke], of ?P]
    show "(case x of (k, e) \<Rightarrow>
              if k \<in> se_id ` {e \<in> snd ` set (signalEvents st). ?P e}
              then (k, e\<lparr>se_consumed := True\<rparr>) else (k, e))
        = (case x of (k, e) \<Rightarrow> if ?P e then (k, e\<lparr>se_consumed := True\<rparr>) else (k, e))"
      by (simp add: ke)
  qed
  show ?thesis
  proof (cases "?L = []")
    case True
    then have "set ?L = {}" by simp
    then have "\<forall>e \<in> snd ` set (signalEvents st). \<not> ?P e"
      unfolding signalEvent_findMany_def set_sort by (auto simp: filter_empty_conv)
    then have "mark_fetched c u now (signalEvents st) = signalEvents st"
      unfolding mark_fetched_def by (intro map_idI) auto
    with True show ?thesis by (simp add: fetch_signals_def Let_def)
  next
    case False
    then show ?thesis by (simp add: fetch_signals_def Let_def signalEvent_updateMany_def upd)
  qed
qed

lemma signal_POST_cases:
  "(\<exists>err. signal_POST st req = (Inl err, st)) \<or>
   (\<exists>userId type payload chatId.
      authenticate (sp_bearer req) (sp_session req) = Some userId \<and>
      orNull (sp_type req) = Some type \<and> orNull (sp_payload req) = Some payload \<and>
      orNull (sp_chatId req) = Some chatId \<and> type \<in> set validTypes \<and>
      chatMember_findUnique st chatId userId \<noteq> None \<and>
      (\<forall>t. orNull (sp_toUserId req) = Some t \<longrightarrow> chatMember_findUnique st chatId t \<noteq> None) \<and>
      signal_POST st req =
         (Inr (sp_newId req),
          st\<lparr>signalEvents := filter (\<lambda>(i, event). \<not> se_expiresAt event < sp_cleanupAt req)
              (AList.update (sp_newId req) (stored_signal req userId type payload chatId) (signalEvents st))\<rparr>))"
proof (cases "authenticate (sp_bearer req) (sp_session req)")
  case None
  then show ?thesis by (simp add: signal_POST_def)
next
  case (Some userId)
  show ?thesis
  proof (cases "orNull (sp_type req)")
    case None
    with Some show ?thesis by (simp add: signal_POST_def)
  next
    case ty: (Some type)
    show ?thesis
    proof (cases "orNull (sp_payload req)")
      case None
      with Some ty show ?thesis by (simp add: signal_POST_def)
    next
      case pl: (Some payload)
      show ?thesis
      proof (cases "orNull (sp_chatId req)")
        case None
        with Some ty pl show ?thesis by (simp add: signal_POST_def)
      next
        case ch: (Some chatId)
        show ?thesis
        proof (cases "type \<in> set validTypes \<and> chatMember_findUnique st chatId userId \<noteq> None
                      \<and> (\<forall>t. orNull (sp_toUserId req) = Some t \<longrightarrow> chatMember_findUnique st chatId t \<noteq> None)")
          case False
          with Some ty pl ch show ?thesis
            by (auto simp: signal_POST_def split: option.splits)
        next
          case True
          with Some ty pl ch have "signal_POST st req =
             (Inr (sp_newId req),
              st\<lparr>signalEvents := filter (\<lambda>(i, event). \<not> se_expiresAt event < sp_cleanupAt req)
              (AList.update (sp_newId req) (stored_signal req userId type payload chatId) (signalEvents st))\<rparr>)"
            by (auto simp: signal_POST_def signalEvent_create_def signalEvent_deleteMany_def
                  stored_signal_def Let_def split: option.splits)
          with Some ty pl ch True show ?thesis by blast
        qed
      qed
    qed
  qed
qed

lemma keys_mark: "map fst (mark_fetched c u now tbl) = map fst tbl"
  by (simp add: mark_fetched_def case_prod_unfold comp_def)

lemma table_ok_mark: "table_ok tbl \<Longrightarrow> table_ok (mark_fetched c u now tbl)"
  unfolding table_ok_def keys_mark by (auto simp: mark_fetched_def split: if_splits)

lemma table_ok_rows: "table_ok tbl \<Longrightarrow> map se_id (map snd tbl) = map fst tbl"
  by (auto simp: table_ok_def)

lemma fetch_ids_distinct:
  assumes "table_ok (signalEvents st)"
  shows "distinct (map se_id (fst (fetch_signals st c u now)))"
proof -
  let ?rows = "map snd (signalEvents st)"
  have "distinct (map se_id ?rows)"
    using assms by (simp only: table_ok_rows) (simp add: table_ok_def)
  then have "distinct (map se_id (filter (signalEvent_where c u False now) ?rows))"
    by (rule distinct_map_filter)
  moreover have "mset (map se_id (fst (fetch_signals st c u now)))
      = mset (map se_id (filter (signalEvent_where c u False now) ?rows))"
    by (simp add: fetch_signals_fst)
  ultimately show ?thesis
    by (metis mset_eq_imp_distinct_iff)
qed

lemma fetch_mem:
  assumes "table_ok (signalEvents st)" "e \<in> set (fst (fetch_signals st c u now))"
  shows "(se_id e, e) \<in> set (signalEvents st) \<and> signalEvent_where c u False now e"
  using assms by (auto simp: fetch_signals_fst table_ok_def)

lemma table_ok_post:
  assumes "table_ok tbl" "se_id ev = k"
  shows "table_ok (filter Q (AList.update k ev tbl))"
proof -
  have "distinct (map fst (AList.update k ev tbl))"
    using assms(1) by (simp add: table_ok_def distinct_update)
  then have "distinct (map fst (filter Q (AList.update k ev tbl)))"
    by (rule distinct_map_filter)
  moreover have "\<forall>(k', e) \<in> set (filter Q (AList.update k ev tbl)). se_id e = k'"
    using assms by (auto simp: table_ok_def dest!: in_updateD)
  ultimately show ?thesis by (simp add: table_ok_def)
qed

lemma keys_mark_set: "fst ` set (mark_fetched c u now tbl) = fst ` set tbl"
proof -
  have "set (map fst (mark_fetched c u now tbl)) = set (map fst tbl)"
    by (simp only: keys_mark)
  then show ?thesis by simp
qed

lemma fetch_step:
  assumes ok: "table_ok (signalEvents st)"
    and inv: "seen_consumed seen (signalEvents st)"
    and f: "fetch_signals st c u now = (signals, st')"
  shows "table_ok (signalEvents st')"
    and "fst ` set (signalEvents st') = fst ` set (signalEvents st)"
    and "distinct (map se_id signals)"
    and "se_id ` set signals \<inter> seen = {}"
    and "se_id ` set signals \<subseteq> fst ` set (signalEvents st)"
    and "seen_consumed (seen \<union> se_id ` set signals) (signalEvents st')"
proof -
  have st': "signalEvents st' = mark_fetched c u now (signalEvents st)"
    using fetch_signals_snd [OF ok, of c u now] f by simp
  have L: "signals = fst (fetch_signals st c u now)" using f by simp
  show "table_ok (signalEvents st')"
    unfolding st' using ok by (rule table_ok_mark)
  show "fst ` set (signalEvents st') = fst ` set (signalEvents st)"
    unfolding st' by (rule keys_mark_set)
  show "distinct (map se_id signals)"
    unfolding L by (rule fetch_ids_distinct [OF ok])
  have memL: "(se_id e, e) \<in> set (signalEvents st) \<and> signalEvent_where c u False now e"
    if "e \<in> set signals" for e
    using that unfolding L by (rule fetch_mem [OF ok])
  show "se_id ` set signals \<inter> seen = {}"
  proof -
    have False if e: "e \<in> set signals" "se_id e \<in> seen" for e
    proof -
      from memL [OF e(1)] have "(se_id e, e) \<in> set (signalEvents st)" "\<not> se_consumed e"
        by (simp_all add: signalEvent_where_iff)
      with inv e(2) show False unfolding seen_consumed_def by blast
    qed
    then show ?thesis by blast
  qed
  show "se_id ` set signals \<subseteq> fst ` set (signalEvents st)"
  proof
    fix k assume "k \<in> se_id ` set signals"
    then obtain e where "e \<in> set signals" "k = se_id e" by blast
    with memL [of e] have "(k, e) \<in> set (signalEvents st)" by simp
    then show "k \<in> fst ` set (signalEvents st)" by (metis fst_conv image_eqI)
  qed
  show "seen_consumed (seen \<union> se_id ` set signals) (signalEvents st')"
    unfolding seen_consumed_def
  proof (clarify)
    fix k e assume ke: "(k, e) \<in> set (signalEvents st')" and k: "k \<in> seen \<union> se_id ` set signals"
    from ke obtain e0 where e0: "(k, e0) \<in> set (signalEvents st)"
      and e: "e = (if signalEvent_where c u False now e0 then e0\<lparr>se_consumed := True\<rparr> else e0)"
      unfolding st' mark_fetched_def by (auto split: if_splits)
    show "se_consumed e"
    proof (cases "signalEvent_where c u False now e0")
      case True
      with e show ?thesis by simp
    next
      case False
      have "k \<in> seen"
      proof (rule ccontr)
        assume "k \<notin> seen"
        with k obtain e1 where e1: "e1 \<in> set signals" "se_id e1 = k" by blast
        from memL [OF e1(1)] e1(2) have m: "(k, e1) \<in> set (signalEvents st)"
          and w: "signalEvent_where c u False now e1" by simp_all
        from ok have "distinct (map fst (signalEvents st))" by (simp add: table_ok_def)
        from eq_key_imp_eq_value [OF this m e0] have "e1 = e0" .
        with w False show False by simp
      qed
      with e0 inv have "se_consumed e0" unfolding seen_consumed_def by blast
      with e False show ?thesis by simp
    qed
  qed
qed

lemma post_step:
  assumes ok: "table_ok (signalEvents st)"
    and inv: "seen_consumed seen (signalEvents st)"
    and fresh: "sp_newId req \<notin> seen"
  shows "table_ok (signalEvents (snd (signal_POST st req)))"
    and "fst ` set (signalEvents (snd (signal_POST st req)))
           \<subseteq> insert (sp_newId req) (fst ` set (signalEvents st))"
    and "seen_consumed seen (signalEvents (snd (signal_POST st req)))"
proof -
  let ?st2 = "snd (signal_POST st req)"
  have "table_ok (signalEvents ?st2)
     \<and> fst ` set (signalEvents ?st2) \<subseteq> insert (sp_newId req) (fst ` set (signalEvents st))
     \<and> seen_consumed seen (signalEvents ?st2)"
    using signal_POST_cases [of st req]
  proof (elim disjE exE conjE)
    fix err assume "signal_POST st req = (Inl err, st)"
    then have "?st2 = st" by simp
    with ok inv show ?thesis by auto
  next
    fix userId type payload chatId
    define ev where "ev = stored_signal req userId type payload chatId"
    define tbl where "tbl = filter (\<lambda>(i, event). \<not> se_expiresAt event < sp_cleanupAt req)
            (AList.update (sp_newId req) ev (signalEvents st))"
    assume "signal_POST st req =
       (Inr (sp_newId req),
        st\<lparr>signalEvents := filter (\<lambda>(i, event). \<not> se_expiresAt event < sp_cleanupAt req)
            (AList.update (sp_newId req) (stored_signal req userId type payload chatId) (signalEvents st))\<rparr>)"
    then have s: "signalEvents ?st2 = tbl"
      by (simp add: tbl_def ev_def)
    have ok': "table_ok tbl"
      unfolding tbl_def
      by (rule table_ok_post [OF ok]) (simp add: ev_def stored_signal_def)
    have mem: "(k, e) \<in> set (signalEvents st) \<or> (k = sp_newId req \<and> e = ev)" if "(k, e) \<in> set tbl" for k e
    proof -
      from that have "(k, e) \<in> set (AList.update (sp_newId req) ev (signalEvents st))"
        unfolding tbl_def by simp
      from in_updateD [OF this] show ?thesis by blast
    qed
    have sub: "fst ` set tbl \<subseteq> insert (sp_newId req) (fst ` set (signalEvents st))"
    proof
      fix k assume "k \<in> fst ` set tbl"
      then obtain e where "(k, e) \<in> set tbl" by (metis imageE prod.collapse)
      from mem [OF this] show "k \<in> insert (sp_newId req) (fst ` set (signalEvents st))"
        by (metis fst_conv image_eqI insertCI)
    qed
    have p4: "seen_consumed seen tbl"
      unfolding seen_consumed_def
    proof (clarify)
      fix k e assume ke: "(k, e) \<in> set tbl" and k: "k \<in> seen"
      from mem [OF ke] k fresh have "(k, e) \<in> set (signalEvents st)" by blast
      with inv k show "se_consumed e" unfolding seen_consumed_def by blast
    qed
    show ?thesis unfolding s using ok' sub p4 by blast
  qed
  then show "table_ok (signalEvents ?st2)"
    and "fst ` set (signalEvents ?st2) \<subseteq> insert (sp_newId req) (fst ` set (signalEvents st))"
    and "seen_consumed seen (signalEvents ?st2)" by blast+
qed

lemma relay_run_distinct_aux:
  assumes "table_ok (signalEvents st)"
    and "distinct (post_ids cs)"
    and "set (post_ids cs) \<inter> (fst ` set (signalEvents st) \<union> seen) = {}"
    and "seen_consumed seen (signalEvents st)"
  shows "distinct (map se_id (concat (relay_run st cs)))
         \<and> se_id ` set (concat (relay_run st cs)) \<inter> seen = {}"
  using assms
proof (induction cs arbitrary: st seen)
  case Nil
  then show ?case by simp
next
  case (Cons call cs)
  show ?case
  proof (cases call)
    case (Fetch c u now)
    obtain signals st' where f: "fetch_signals st c u now = (signals, st')"
      by (cases "fetch_signals st c u now")
    note step = fetch_step [OF Cons.prems(1) Cons.prems(4) f]
    let ?seen' = "seen \<union> se_id ` set signals"
    have p2: "distinct (post_ids cs)" using Cons.prems(2) Fetch by simp
    have a: "set (post_ids cs) \<inter> fst ` set (signalEvents st) = {}"
      and b: "set (post_ids cs) \<inter> seen = {}"
      using Cons.prems(3) Fetch by auto
    from a step(5) have "set (post_ids cs) \<inter> se_id ` set signals = {}" by blast
    with a b have p3: "set (post_ids cs) \<inter> (fst ` set (signalEvents st') \<union> ?seen') = {}"
      unfolding step(2) by blast
    from Cons.IH [OF step(1) p2 p3 step(6)]
    have ih: "distinct (map se_id (concat (relay_run st' cs)))"
      "se_id ` set (concat (relay_run st' cs)) \<inter> ?seen' = {}" by blast+
    have run: "relay_run st (call # cs) = signals # relay_run st' cs"
      using Fetch f by simp
    let ?rest = "concat (relay_run st' cs)"
    have i1: "se_id ` set ?rest \<inter> seen = {}"
      and i2: "se_id ` set signals \<inter> se_id ` set ?rest = {}"
      using ih(2) by blast+
    have "distinct (map se_id (signals @ ?rest))"
      unfolding map_append distinct_append set_map using step(3) ih(1) i2 by blast
    moreover have "se_id ` set (signals @ ?rest) \<inter> seen = {}"
      unfolding set_append image_Un using step(4) i1 by blast
    ultimately show ?thesis
      unfolding run by simp
  next
    case (Post req)
    have p2: "distinct (post_ids cs)" and nid: "sp_newId req \<notin> set (post_ids cs)"
      using Cons.prems(2) Post by auto
    have run: "relay_run st (call # cs) = relay_run (snd (signal_POST st req)) cs"
      using Post by simp
    have fresh: "sp_newId req \<notin> seen"
      using Cons.prems(3) Post by auto
    note step = post_step [OF Cons.prems(1) Cons.prems(4) fresh]
    have a: "set (post_ids cs) \<inter> fst ` set (signalEvents st) = {}"
      and b: "set (post_ids cs) \<inter> seen = {}"
      using Cons.prems(3) Post by auto
    have "set (post_ids cs) \<inter> fst ` set (signalEvents (snd (signal_POST st req))) = {}"
      by (rule disjoint_insert_sub [OF step(2) a nid])
    from disjoint_Un2 [OF this b] have p3: "set (post_ids cs) \<inter>
        (fst ` set (signalEvents (snd (signal_POST st req))) \<union> seen) = {}" .
    show ?thesis unfolding run
      by (rule Cons.IH [OF step(1) p2 p3 step(3)])
  qed
qed

lemma relay_run_distinct:
  assumes "table_ok (signalEvents st)"
    and "distinct (post_ids cs)"
    and "set (post_ids cs) \<inter> fst ` set (signalEvents st) = {}"
  shows "distinct (map se_id (concat (relay_run st cs)))"
proof -
  have "seen_consumed {} (signalEvents st)" by (simp add: seen_consumed_def)
  from relay_run_distinct_aux [OF assms(1,2) _ this] assms(3) show ?thesis by simp
qed

lemma fetch_signals_exactly:
  "mset (fst (fetch_signals st c u now)) =
     filter_mset (\<lambda>e. se_chatId e = c \<and> se_toUserId e = Some u \<and> \<not> se_consumed e \<and> now < se_expiresAt e)
       (mset (map snd (signalEvents st)))"
proof -
  have "signalEvent_where c u False now =
     (\<lambda>e. se_chatId e = c \<and> se_toUserId e = Some u \<and> \<not> se_consumed e \<and> now < se_expiresAt e)"
    by (rule ext) (rule signalEvent_where_iff)
  then show ?thesis by (simp add: fetch_signals_fst)
qed

lemma fetch_signals_sorted: "sorted (map se_createdAt (fst (fetch_signals st c u now)))"
  by (simp add: fetch_signals_fst)

lemma fetch_signals_marks:
  assumes ok: "table_ok (signalEvents st)" and e: "e \<in> set (fst (fetch_signals st c u now))"
  shows "map_of (signalEvents (snd (fetch_signals st c u now))) (se_id e) = Some (e\<lparr>se_consumed := True\<rparr>)"
proof -
  from fetch_mem [OF ok e] have m: "(se_id e, e) \<in> set (signalEvents st)"
    and w: "signalEvent_where c u False now e" by simp_all
  have d: "distinct (map fst (mark_fetched c u now (signalEvents st)))"
    unfolding keys_mark using ok by (simp add: table_ok_def)
  from m w have "(se_id e, e\<lparr>se_consumed := True\<rparr>) \<in> set (mark_fetched c u now (signalEvents st))"
    unfolding mark_fetched_def by force
  from map_of_is_SomeI [OF d this] show ?thesis
    by (simp add: fetch_signals_snd [OF ok])
qed

lemma fetch_signals_again_empty:
  assumes ok: "table_ok (signalEvents st)" and t: "now \<le> t"
  shows "fst (fetch_signals (snd (fetch_signals st c u now)) c u t) = []"
proof -
  have "\<not> signalEvent_where c u False t e"
    if "e \<in> snd ` set (mark_fetched c u now (signalEvents st))" for e
  proof -
    from that obtain k e0 where "(k, e0) \<in> set (signalEvents st)"
      and e: "e = (if signalEvent_where c u False now e0 then e0\<lparr>se_consumed := True\<rparr> else e0)"
      unfolding mark_fetched_def by (auto split: if_splits)
    show ?thesis
    proof (cases "signalEvent_where c u False now e0")
      case True
      with e show ?thesis by (simp add: signalEvent_where_iff)
    next
      case False
      with e t show ?thesis by (auto simp: signalEvent_where_iff)
    qed
  qed
  then have "filter (signalEvent_where c u False t)
      (map snd (mark_fetched c u now (signalEvents st))) = []"
    by (simp add: filter_empty_conv)
  then show ?thesis
    by (simp add: fetch_signals_fst fetch_signals_snd [OF ok])
qed

lemma signal_GET_fetch:
  assumes "authenticate (sg_bearer req) (sg_session req) = Some userId"
    and "orNull (sg_chatId req) = Some chatId"
    and "chatMember_findUnique st chatId userId = Some membership"
  shows "signal_GET st req =
     (Inr (map signalView_of (fst (fetch_signals st chatId userId (sg_now req)))),
      snd (fetch_signals st chatId userId (sg_now req)))"
  using assms by (simp add: signal_GET_def case_prod_unfold Let_def)

lemma fetch_signals_returned:
  assumes "(k, e) \<in> set (signalEvents st)"
  shows "e \<in> set (fst (fetch_signals st c u now)) \<longleftrightarrow> signalEvent_where c u False now e"
proof -
  from assms have "e \<in> snd ` set (signalEvents st)" by force
  then show ?thesis by (simp add: fetch_signals_fst)
qed

lemma fetch_signals_frame:
  assumes ok: "table_ok (signalEvents st)"
  shows "snd (fetch_signals st c u now) =
     st\<lparr>signalEvents :=
          map (\<lambda>(k, e). if e \<in> set (fst (fetch_signals st c u now))
                          then (k, e\<lparr>se_consumed := True\<rparr>) else (k, e))
            (signalEvents st)\<rparr>"
proof -
  have "mark_fetched c u now (signalEvents st) =
      map (\<lambda>(k, e). if e \<in> set (fst (fetch_signals st c u now))
                      then (k, e\<lparr>se_consumed := True\<rparr>) else (k, e))
        (signalEvents st)"
    unfolding mark_fetched_def
  proof (rule map_cong [OF refl])
    fix x assume x: "x \<in> set (signalEvents st)"
    obtain k e where ke: "x = (k, e)" by (cases x)
    from fetch_signals_returned [OF x [unfolded ke], of c u now]
    show "(case x of (k, e) \<Rightarrow>
              if signalEvent_where c u False now e then (k, e\<lparr>se_consumed := True\<rparr>) else (k, e))
        = (case x of (k, e) \<Rightarrow>
              if e \<in> set (fst (fetch_signals st c u now))
              then (k, e\<lparr>se_consumed := True\<rparr>) else (k, e))"
      by (simp add: ke)
  qed
  then show ?thesis by (simp add: fetch_signals_snd [OF ok])
qed

text \<open>
  Claim C2. With requests handled one at a time, a \<open>GET /api/signal\<close> that passes its
  checks answers with exactly the unconsumed, unexpired rows addressed to the polling user
  in that chat, in ascending order of creation time, each given by its type, payload,
  sender, addressee and chat, and the same handler marks each of them consumed and changes
  nothing else in the store. A row whose expiry is not after the time of the request is
  not returned, consumed or not. A second fetch for the same user and chat at the same or a
  later time returns nothing, and over any later run of fetches (by any user, in any chat,
  at any time) and posts (under ids not used before) no row is returned twice.
\<close>

theorem signal_GET_exactly_once:
  assumes ok: "table_ok (signalEvents st)"
    and auth: "authenticate (sg_bearer req) (sg_session req) = Some userId"
    and chat: "orNull (sg_chatId req) = Some chatId"
    and member: "chatMember_findUnique st chatId userId = Some membership"
    and get: "signal_GET st req = (res, st')"
  shows "\<exists>signals views.
      res = Inr views
    \<and> map sv_type views = map se_type signals
    \<and> map sv_payload views = map se_payload signals
    \<and> map sv_fromUserId views = map se_fromUserId signals
    \<and> map sv_toUserId views = map se_toUserId signals
    \<and> map sv_chatId views = map se_chatId signals
    \<and> fetch_signals st chatId userId (sg_now req) = (signals, st')
    \<and> mset signals =
        filter_mset (\<lambda>e. se_chatId e = chatId \<and> se_toUserId e = Some userId
                          \<and> \<not> se_consumed e \<and> sg_now req < se_expiresAt e)
          (mset (map snd (signalEvents st)))
    \<and> sorted (map se_createdAt signals)
    \<and> st' = st\<lparr>signalEvents :=
               map (\<lambda>(k, e). if e \<in> set signals then (k, e\<lparr>se_consumed := True\<rparr>) else (k, e))
                 (signalEvents st)\<rparr>
    \<and> (\<forall>e \<in> set signals.
          map_of (signalEvents st') (se_id e) = Some (e\<lparr>se_consumed := True\<rparr>))
    \<and> (\<forall>t \<ge> sg_now req. fst (fetch_signals st' chatId userId t) = [])
    \<and> (\<forall>cs. distinct (post_ids cs) \<and> set (post_ids cs) \<inter> fst ` set (signalEvents st) = {}
          \<longrightarrow> distinct (map se_id (signals @ concat (relay_run st' cs))))"
proof -
  let ?now = "sg_now req"
  let ?signals = "fst (fetch_signals st chatId userId ?now)"
  let ?views = "map signalView_of ?signals"
  have g: "(res, st') = (Inr ?views, snd (fetch_signals st chatId userId ?now))"
    unfolding get [symmetric] by (rule signal_GET_fetch [OF auth chat member])
  have res: "res = Inr ?views"
    by (rule Pair_inject [OF g])
  have st': "st' = snd (fetch_signals st chatId userId ?now)"
    by (rule Pair_inject [OF g])
  have f: "fetch_signals st chatId userId ?now = (?signals, st')"
    unfolding st' by (rule prod.collapse [symmetric])
  have never: "distinct (map se_id (?signals @ concat (relay_run st' cs)))"
    if p: "distinct (post_ids cs) \<and> set (post_ids cs) \<inter> fst ` set (signalEvents st) = {}" for cs
  proof -
    have r: "relay_run st (Fetch chatId userId ?now # cs) = ?signals # relay_run st' cs"
      unfolding st' by (simp add: case_prod_unfold Let_def)
    have "distinct (post_ids (Fetch chatId userId ?now # cs))"
      and "set (post_ids (Fetch chatId userId ?now # cs)) \<inter> fst ` set (signalEvents st) = {}"
      using p by simp_all
    from relay_run_distinct [OF ok this]
    show ?thesis unfolding r by simp
  qed
  show ?thesis
  proof (intro exI [of _ ?signals] exI [of _ ?views] conjI allI impI ballI)
    show "res = Inr ?views" by (rule res)
    show "map sv_type ?views = map se_type ?signals" by (simp add: signalView_of_def comp_def)
    show "map sv_payload ?views = map se_payload ?signals" by (simp add: signalView_of_def comp_def)
    show "map sv_fromUserId ?views = map se_fromUserId ?signals"
      by (simp add: signalView_of_def comp_def)
    show "map sv_toUserId ?views = map se_toUserId ?signals" by (simp add: signalView_of_def comp_def)
    show "map sv_chatId ?views = map se_chatId ?signals" by (simp add: signalView_of_def comp_def)
    show "fetch_signals st chatId userId ?now = (?signals, st')" by (rule f)
    show "mset ?signals =
        filter_mset (\<lambda>e. se_chatId e = chatId \<and> se_toUserId e = Some userId
                          \<and> \<not> se_consumed e \<and> sg_now req < se_expiresAt e)
          (mset (map snd (signalEvents st)))"
      by (rule fetch_signals_exactly)
    show "sorted (map se_createdAt ?signals)" by (rule fetch_signals_sorted)
    show "st' = st\<lparr>signalEvents :=
               map (\<lambda>(k, e). if e \<in> set ?signals then (k, e\<lparr>se_consumed := True\<rparr>) else (k, e))
                 (signalEvents st)\<rparr>"
      unfolding st' using ok by (rule fetch_signals_frame)
    show "map_of (signalEvents st') (se_id e) = Some (e\<lparr>se_consumed := True\<rparr>)"
      if "e \<in> set ?signals" for e
      unfolding st' using ok that by (rule fetch_signals_marks)
    show "fst (fetch_signals st' chatId userId t) = []" if "sg_now req \<le> t" for t
      unfolding st' using ok that by (rule fetch_signals_again_empty)
    show "distinct (map se_id (?signals @ concat (relay_run st' cs)))"
      if "distinct (post_ids cs) \<and> set (post_ids cs) \<inter> fst ` set (signalEvents st) = {}" for cs
      using that by (rule never)
  qed
qed

theorem signal_GET_exactly_once_witness:
  "table_ok (signalEvents demo_storage)
   \<and> authenticate (sg_bearer demo_get) (sg_session demo_get) = Some (js ''demo-user-1'')
   \<and> orNull (sg_chatId demo_get) = Some (js ''chat-1'')
   \<and> chatMember_findUnique demo_storage (js ''chat-1'') (js ''demo-user-1'')
       = Some (snd (demo_member ''member-1'' ''chat-1'' ''demo-user-1''))
   \<and> (\<exists>signals views.
        fst (signal_GET demo_storage demo_get) = Inr views
      \<and> map sv_type views = map se_type signals
      \<and> map sv_payload views = map se_payload signals
      \<and> map sv_fromUserId views = map se_fromUserId signals
      \<and> map sv_toUserId views = map se_toUserId signals
      \<and> map sv_chatId views = map se_chatId signals
      \<and> map se_id signals = [js ''s2'', js ''s1'']
      \<and> sorted (map se_createdAt signals)
      \<and> (\<forall>e \<in> set signals.
            map_of (signalEvents (snd (signal_GET demo_storage demo_get))) (se_id e)
              = Some (e\<lparr>se_consumed := True\<rparr>))
      \<and> (\<forall>t \<ge> 10000. fst (fetch_signals (snd (signal_GET demo_storage demo_get))
                                (js ''chat-1'') (js ''demo-user-1'') t) = []))"
proof -
  have h1: "table_ok (signalEvents demo_storage)" by code_simp
  have h2: "authenticate (sg_bearer demo_get) (sg_session demo_get) = Some (js ''demo-user-1'')"
    by code_simp
  have h3: "orNull (sg_chatId demo_get) = Some (js ''chat-1'')" by code_simp
  have h4: "chatMember_findUnique demo_storage (js ''chat-1'') (js ''demo-user-1'')
       = Some (snd (demo_member ''member-1'' ''chat-1'' ''demo-user-1''))" by code_simp
  have now: "sg_now demo_get = 10000" by (simp add: demo_get_def)
  have ids: "map se_id (fst (fetch_signals demo_storage (js ''chat-1'') (js ''demo-user-1'') 10000))
      = [js ''s2'', js ''s1'']" by code_simp
  from signal_GET_exactly_once [OF h1 h2 h3 h4 surjective_pairing]
  obtain signals views where s: "fst (signal_GET demo_storage demo_get) = Inr views"
    "map sv_type views = map se_type signals"
    "map sv_payload views = map se_payload signals"
    "map sv_fromUserId views = map se_fromUserId signals"
    "map sv_toUserId views = map se_toUserId signals"
    "map sv_chatId views = map se_chatId signals"
    "fetch_signals demo_storage (js ''chat-1'') (js ''demo-user-1'') (sg_now demo_get)
       = (signals, snd (signal_GET demo_storage demo_get))"
    "sorted (map se_createdAt signals)"
    "\<forall>e \<in> set signals.
            map_of (signalEvents (snd (signal_GET demo_storage demo_get))) (se_id e)
              = Some (e\<lparr>se_consumed := True\<rparr>)"
    "\<forall>t \<ge> sg_now demo_get. fst (fetch_signals (snd (signal_GET demo_storage demo_get))
                                (js ''chat-1'') (js ''demo-user-1'') t) = []"
    by blast
  from s(7) have "signals = fst (fetch_signals demo_storage (js ''chat-1'') (js ''demo-user-1'') 10000)"
    unfolding now by simp
  with ids have i: "map se_id signals = [js ''s2'', js ''s1'']" by simp
  note facts = h1 h2 h3 h4 s(1-6) i s(8) s(9) s(10) [unfolded now]
  show ?thesis by (intro conjI exI [of _ signals] exI [of _ views]) (fact facts)+
qed

lemma fetch_signals_addressee:
  "e \<in> set (fst (fetch_signals st c u t)) \<Longrightarrow> se_toUserId e = Some u"
  by (simp add: fetch_signals_fst signalEvent_where_iff)

lemma relay_run_addressed:
  "e \<in> set (concat (relay_run st cs)) \<Longrightarrow> se_toUserId e \<noteq> None"
proof (induction st cs rule: relay_run.induct)
  case (1 st)
  then show ?case by simp
next
  case (2 st chatId userId now cs)
  let ?f = "fetch_signals st chatId userId now"
  from "2.prems" have "e \<in> set (fst ?f) \<or> e \<in> set (concat (relay_run (snd ?f) cs))"
    by (simp add: case_prod_unfold Let_def)
  then show ?case
  proof
    assume "e \<in> set (fst ?f)"
    then show ?thesis by (simp add: fetch_signals_addressee)
  next
    assume "e \<in> set (concat (relay_run (snd ?f) cs))"
    then show ?thesis by (rule "2.IH" [OF refl prod.collapse])
  qed
next
  case (3 st req cs)
  then show ?case by simp
qed

lemma signal_GET_cases:
  "(\<exists>err. signal_GET st req = (Inl err, st)) \<or>
   (\<exists>c u. signal_GET st req =
      (Inr (map signalView_of (fst (fetch_signals st c u (sg_now req)))),
       snd (fetch_signals st c u (sg_now req))))"
  by (auto simp: signal_GET_def case_prod_unfold Let_def split: option.splits)

lemma signal_GET_addressed:
  assumes "signal_GET st req = (Inr body, st')" "v \<in> set body"
  shows "sv_toUserId v \<noteq> None"
proof -
  from signal_GET_cases [of st req] assms(1)
  obtain c u where "body = map signalView_of (fst (fetch_signals st c u (sg_now req)))"
    by auto
  with assms(2) obtain e where "e \<in> set (fst (fetch_signals st c u (sg_now req)))"
    "v = signalView_of e" by auto
  then show ?thesis
    by (simp add: signalView_of_def fetch_signals_addressee)
qed

lemma fetch_keeps_broadcast:
  assumes "table_ok (signalEvents st)" "(k, e) \<in> set (signalEvents st)" "se_toUserId e = None"
  shows "(k, e) \<in> set (signalEvents (snd (fetch_signals st c u t)))"
proof -
  from assms(3) have "\<not> signalEvent_where c u False t e"
    by (simp add: signalEvent_where_iff)
  with assms(2) have "(k, e) \<in> set (mark_fetched c u t (signalEvents st))"
    unfolding mark_fetched_def by force
  then show ?thesis by (simp add: fetch_signals_snd [OF assms(1)])
qed

lemma post_keeps_unexpired:
  assumes "(k, e) \<in> set (signalEvents st)" "k \<noteq> sp_newId p" "\<not> se_expiresAt e < sp_cleanupAt p"
  shows "(k, e) \<in> set (signalEvents (snd (signal_POST st p)))"
  using signal_POST_cases [of st p]
proof (elim disjE exE conjE)
  fix err assume "signal_POST st p = (Inl err, st)"
  with assms(1) show ?thesis by simp
next
  fix userId type payload chatId
  assume "signal_POST st p =
       (Inr (sp_newId p),
        st\<lparr>signalEvents := filter (\<lambda>(i, event). \<not> se_expiresAt event < sp_cleanupAt p)
            (AList.update (sp_newId p) (stored_signal p userId type payload chatId) (signalEvents st))\<rparr>)"
  moreover from in_update_other [OF assms(1,2)] assms(3)
  have "(k, e) \<in> set (filter (\<lambda>(i, event). \<not> se_expiresAt event < sp_cleanupAt p)
            (AList.update (sp_newId p) (stored_signal p userId type payload chatId) (signalEvents st)))"
    by simp
  ultimately show ?thesis by simp
qed

lemma post_cleans_expired:
  assumes "signal_POST st p = (Inr r, st')" "se_expiresAt e < sp_cleanupAt p"
  shows "(k, e) \<notin> set (signalEvents st')"
  using signal_POST_cases [of st p]
proof (elim disjE exE conjE)
  fix err assume "signal_POST st p = (Inl err, st)"
  with assms(1) show ?thesis by simp
next
  fix userId type payload chatId
  assume "signal_POST st p =
       (Inr (sp_newId p),
        st\<lparr>signalEvents := filter (\<lambda>(i, event). \<not> se_expiresAt event < sp_cleanupAt p)
            (AList.update (sp_newId p) (stored_signal p userId type payload chatId) (signalEvents st))\<rparr>)"
  with assms(1) have "signalEvents st' = filter (\<lambda>(i, event). \<not> se_expiresAt event < sp_cleanupAt p)
            (AList.update (sp_newId p) (stored_signal p userId type payload chatId) (signalEvents st))"
    by auto
  with assms(2) show ?thesis by simp
qed

lemma relay_state_keeps_broadcast:
  assumes "table_ok (signalEvents st)"
    and "set (post_ids cs) \<inter> fst ` set (signalEvents st) = {}"
    and "distinct (post_ids cs)"
    and "(k, e) \<in> set (signalEvents st)" "se_toUserId e = None"
    and "\<forall>t \<in> set (cleanup_times cs). \<not> se_expiresAt e < t"
  shows "(k, e) \<in> set (signalEvents (relay_state st cs))"
  using assms
proof (induction cs arbitrary: st)
  case Nil
  then show ?case by simp
next
  case (Cons call cs)
  have inv: "seen_consumed {} (signalEvents st)" by (simp add: seen_consumed_def)
  show ?case
  proof (cases call)
    case (Fetch c u now)
    let ?st' = "snd (fetch_signals st c u now)"
    note step = fetch_step [OF Cons.prems(1) inv prod.collapse [symmetric], of c u now]
    have 2: "set (post_ids cs) \<inter> fst ` set (signalEvents ?st') = {}"
      unfolding step(2) using Cons.prems(2) Fetch by simp
    have 3: "distinct (post_ids cs)" using Cons.prems(3) Fetch by simp
    have 4: "(k, e) \<in> set (signalEvents ?st')"
      by (rule fetch_keeps_broadcast [OF Cons.prems(1) Cons.prems(4) Cons.prems(5)])
    have 6: "\<forall>t \<in> set (cleanup_times cs). \<not> se_expiresAt e < t"
      using Cons.prems(6) Fetch by simp
    have "relay_state st (call # cs) = relay_state ?st' cs" using Fetch by simp
    with Cons.IH [OF step(1) 2 3 4 Cons.prems(5) 6] show ?thesis by simp
  next
    case (Post p)
    let ?st' = "snd (signal_POST st p)"
    have fresh: "sp_newId p \<notin> {}" by simp
    note step = post_step [OF Cons.prems(1) inv fresh]
    have a: "set (post_ids cs) \<inter> fst ` set (signalEvents st) = {}"
      and nid: "sp_newId p \<notin> set (post_ids cs)"
      and knew: "sp_newId p \<notin> fst ` set (signalEvents st)"
      using Cons.prems(2,3) Post by auto
    have 2: "set (post_ids cs) \<inter> fst ` set (signalEvents ?st') = {}"
      by (rule disjoint_insert_sub [OF step(2) a nid])
    have 3: "distinct (post_ids cs)" using Cons.prems(3) Post by simp
    have "k \<in> fst ` set (signalEvents st)"
      using Cons.prems(4) by (metis fst_conv image_eqI)
    with knew have kne: "k \<noteq> sp_newId p" by blast
    have ne: "\<not> se_expiresAt e < sp_cleanupAt p" using Cons.prems(6) Post by simp
    have 4: "(k, e) \<in> set (signalEvents ?st')"
      by (rule post_keeps_unexpired [OF Cons.prems(4) kne ne])
    have 6: "\<forall>t \<in> set (cleanup_times cs). \<not> se_expiresAt e < t"
      using Cons.prems(6) Post by simp
    have "relay_state st (call # cs) = relay_state ?st' cs" using Post by simp
    with Cons.IH [OF step(1) 2 3 4 Cons.prems(5) 6] show ?thesis by simp
  qed
qed

lemma signal_POST_broadcast:
  assumes auth: "authenticate (sp_bearer req) (sp_session req) = Some userId"
    and type: "orNull (sp_type req) = Some type" and valid: "type \<in> set validTypes"
    and payload: "orNull (sp_payload req) = Some payload"
    and chat: "orNull (sp_chatId req) = Some chatId"
    and member: "chatMember_findUnique st chatId userId = Some membership"
    and broadcast: "\<not> truthy (sp_toUserId req)"
  shows "signal_POST st req =
     (Inr (sp_newId req),
      st\<lparr>signalEvents := filter (\<lambda>(i, event). \<not> se_expiresAt event < sp_cleanupAt req)
          (AList.update (sp_newId req) (stored_signal req userId type payload chatId) (signalEvents st))\<rparr>)"
proof -
  have "orNull (sp_toUserId req) = None" using broadcast by (simp add: orNull_def)
  with assms show ?thesis
    by (simp add: signal_POST_def signalEvent_create_def signalEvent_deleteMany_def
          stored_signal_def Let_def)
qed

text \<open>
  Claim C10. A \<open>POST /api/signal\<close> without a target user is accepted and the row is
  stored with \<open>toUserId = null\<close>. No fetch ever returns that row, to any user (every row
  a fetch returns is addressed to the polling user), fetches leave it in the table, and it
  stays there through any run whose posts all clean up no later than its expiry; a later
  accepted post whose cleanup time is past its expiry removes it.
\<close>

theorem broadcast_signal_never_fetched:
  assumes ok: "table_ok (signalEvents st)"
    and auth: "authenticate (sp_bearer req) (sp_session req) = Some userId"
    and type: "orNull (sp_type req) = Some type" and valid: "type \<in> set validTypes"
    and payload: "orNull (sp_payload req) = Some payload"
    and chat: "orNull (sp_chatId req) = Some chatId"
    and member: "chatMember_findUnique st chatId userId = Some membership"
    and broadcast: "\<not> truthy (sp_toUserId req)"
    and clock: "\<not> sp_now req + SIGNAL_TTL_MS < sp_cleanupAt req"
    and ev: "ev = stored_signal req userId type payload chatId"
    and post: "signal_POST st req = (res, st1)"
  shows "res = Inr (sp_newId req)
    \<and> se_toUserId ev = None
    \<and> (sp_newId req, ev) \<in> set (signalEvents st1)
    \<and> (\<forall>cs. ev \<notin> set (concat (relay_run st1 cs)))
    \<and> (\<forall>s g body s'. signal_GET s g = (Inr body, s') \<longrightarrow> None \<notin> sv_toUserId ` set body)
    \<and> (\<forall>cs. distinct (post_ids cs) \<and> set (post_ids cs) \<inter> fst ` set (signalEvents st1) = {}
            \<and> (\<forall>t \<in> set (cleanup_times cs). \<not> se_expiresAt ev < t)
          \<longrightarrow> (sp_newId req, ev) \<in> set (signalEvents (relay_state st1 cs)))
    \<and> (\<forall>s p r s'. signal_POST s p = (Inr r, s') \<and> se_expiresAt ev < sp_cleanupAt p
          \<longrightarrow> (sp_newId req, ev) \<notin> set (signalEvents s'))"
proof -
  let ?tbl = "filter (\<lambda>(i, event). \<not> se_expiresAt event < sp_cleanupAt req)
          (AList.update (sp_newId req) ev (signalEvents st))"
  have p: "(res, st1) = (Inr (sp_newId req), st\<lparr>signalEvents := ?tbl\<rparr>)"
    unfolding post [symmetric] ev
    by (rule signal_POST_broadcast [OF auth type valid payload chat member broadcast])
  have res: "res = Inr (sp_newId req)" by (rule Pair_inject [OF p])
  have st1: "st1 = st\<lparr>signalEvents := ?tbl\<rparr>" by (rule Pair_inject [OF p])
  have to: "se_toUserId ev = None"
    using broadcast by (simp add: ev stored_signal_def orNull_def)
  have exp: "se_expiresAt ev = sp_now req + SIGNAL_TTL_MS"
    by (simp add: ev stored_signal_def)
  have mem: "(sp_newId req, ev) \<in> set (signalEvents st1)"
    unfolding st1 using in_update_self [of "sp_newId req" ev "signalEvents st"] clock exp by simp
  have ok1: "table_ok (signalEvents st1)"
  proof -
    have "table_ok ?tbl"
      by (rule table_ok_post [OF ok]) (simp add: ev stored_signal_def)
    then show ?thesis by (simp add: st1)
  qed
  show ?thesis
  proof (intro conjI allI impI)
    show "res = Inr (sp_newId req)" by (rule res)
    show "se_toUserId ev = None" by (rule to)
    show "(sp_newId req, ev) \<in> set (signalEvents st1)" by (rule mem)
    show "ev \<notin> set (concat (relay_run st1 cs))" for cs
      using relay_run_addressed [of ev st1 cs] to by blast
    show "None \<notin> sv_toUserId ` set body" if "signal_GET s g = (Inr body, s')" for s g body s'
      using signal_GET_addressed [OF that] by force
    show "(sp_newId req, ev) \<in> set (signalEvents (relay_state st1 cs))"
      if h: "distinct (post_ids cs) \<and> set (post_ids cs) \<inter> fst ` set (signalEvents st1) = {}
            \<and> (\<forall>t \<in> set (cleanup_times cs). \<not> se_expiresAt ev < t)" for cs
    proof -
      from h have 1: "set (post_ids cs) \<inter> fst ` set (signalEvents st1) = {}"
        and 2: "distinct (post_ids cs)"
        and 3: "\<forall>t \<in> set (cleanup_times cs). \<not> se_expiresAt ev < t" by blast+
      show ?thesis by (rule relay_state_keeps_broadcast [OF ok1 1 2 mem to 3])
    qed
    show "(sp_newId req, ev) \<notin> set (signalEvents s')"
      if "signal_POST s p = (Inr r, s') \<and> se_expiresAt ev < sp_cleanupAt p" for s p r s'
      using that post_cleans_expired [of s p r s' ev] by blast
  qed
qed

theorem broadcast_signal_never_fetched_witness:
  "table_ok (signalEvents demo_storage)
   \<and> authenticate (sp_bearer demo_post) (sp_session demo_post) = Some (js ''other-user-1'')
   \<and> orNull (sp_type demo_post) = Some (js ''offer'') \<and> js ''offer'' \<in> set validTypes
   \<and> orNull (sp_payload demo_post) = Some (js ''sdp'')
   \<and> orNull (sp_chatId demo_post) = Some (js ''chat-1'')
   \<and> chatMember_findUnique demo_storage (js ''chat-1'') (js ''other-user-1'')
       = Some (snd (demo_member ''member-2'' ''chat-1'' ''other-user-1''))
   \<and> \<not> truthy (sp_toUserId demo_post)
   \<and> \<not> sp_now demo_post + SIGNAL_TTL_MS < sp_cleanupAt demo_post
   \<and> fst (signal_POST demo_storage demo_post) = Inr (sp_newId demo_post)
   \<and> se_toUserId (stored_signal demo_post (js ''other-user-1'') (js ''offer'') (js ''sdp'') (js ''chat-1'')) = None
   \<and> (sp_newId demo_post,
        stored_signal demo_post (js ''other-user-1'') (js ''offer'') (js ''sdp'') (js ''chat-1''))
         \<in> set (signalEvents (snd (signal_POST demo_storage demo_post)))
   \<and> (\<forall>cs. stored_signal demo_post (js ''other-user-1'') (js ''offer'') (js ''sdp'') (js ''chat-1'')
         \<notin> set (concat (relay_run (snd (signal_POST demo_storage demo_post)) cs)))"
proof -
  have h1: "table_ok (signalEvents demo_storage)" by code_simp
  have h2: "authenticate (sp_bearer demo_post) (sp_session demo_post) = Some (js ''other-user-1'')"
    by code_simp
  have h3: "orNull (sp_type demo_post) = Some (js ''offer'')" by code_simp
  have h4: "js ''offer'' \<in> set validTypes" by (simp add: validTypes_def)
  have h5: "orNull (sp_payload demo_post) = Some (js ''sdp'')" by code_simp
  have h6: "orNull (sp_chatId demo_post) = Some (js ''chat-1'')" by code_simp
  have h7: "chatMember_findUnique demo_storage (js ''chat-1'') (js ''other-user-1'')
       = Some (snd (demo_member ''member-2'' ''chat-1'' ''other-user-1''))" by code_simp
  have h8: "\<not> truthy (sp_toUserId demo_post)" by (simp add: demo_post_def truthy_def)
  have h9: "\<not> sp_now demo_post + SIGNAL_TTL_MS < sp_cleanupAt demo_post"
    by (simp add: demo_post_def SIGNAL_TTL_MS_def)
  note t = broadcast_signal_never_fetched [OF h1 h2 h3 h4 h5 h6 h7 h8 h9 refl surjective_pairing]
  show ?thesis
    by (intro conjI) (fact h1 h2 h3 h4 h5 h6 h7 h8 h9 t [THEN conjunct1]
        t [THEN conjunct2, THEN conjunct1] t [THEN conjunct2, THEN conjunct2, THEN conjunct1]
        t [THEN conjunct2, THEN conjunct2, THEN conjunct2, THEN conjunct1])+
qed

section \<open>Properties of the delete and messages routes\<close>

text \<open>
  Claim C4. A delete request with message id, chat id and signature present (whatever the
  signature, so also a correct one), from a session user who is not the sender of the
  target message, is answered with status 403 and leaves the store as it was: no delete
  event is stored and the message is unchanged.
\<close>

theorem delete_POST_rejects_non_sender:
  assumes "dp_session req = Some (Some userId)"
    and "orNull (dp_messageId req) = Some messageId"
    and "orNull (dp_chatId req) = Some chatId"
    and "orNull (dp_signature req) = Some signature"
    and "message_findUnique st messageId = Some message"
    and "m_senderId message \<noteq> userId"
  shows "\<exists>text. delete_POST parse st req = (Inl (HttpError 403 text), st)"
  using assms by (simp add: delete_POST_def split: option.splits)

theorem delete_POST_rejects_non_sender_witness:
  "dp_session (demo_delete ''other-user-1'' ''c2ln'') = Some (Some (js ''other-user-1''))
   \<and> orNull (dp_messageId (demo_delete ''other-user-1'' ''c2ln'')) = Some (js ''m1'')
   \<and> orNull (dp_chatId (demo_delete ''other-user-1'' ''c2ln'')) = Some (js ''chat-1'')
   \<and> orNull (dp_signature (demo_delete ''other-user-1'' ''c2ln'')) = Some (js ''c2ln'')
   \<and> message_findUnique demo_chat (js ''m1'') = Some demo_message
   \<and> m_senderId demo_message \<noteq> js ''other-user-1''
   \<and> (\<exists>text. delete_POST demo_parse demo_chat (demo_delete ''other-user-1'' ''c2ln'')
          = (Inl (HttpError 403 text), demo_chat))"
proof -
  have h1: "dp_session (demo_delete ''other-user-1'' ''c2ln'') = Some (Some (js ''other-user-1''))"
    by (simp add: demo_delete_def)
  have h2: "orNull (dp_messageId (demo_delete ''other-user-1'' ''c2ln'')) = Some (js ''m1'')"
    by code_simp
  have h3: "orNull (dp_chatId (demo_delete ''other-user-1'' ''c2ln'')) = Some (js ''chat-1'')"
    by code_simp
  have h4: "orNull (dp_signature (demo_delete ''other-user-1'' ''c2ln'')) = Some (js ''c2ln'')"
    by code_simp
  have h5: "message_findUnique demo_chat (js ''m1'') = Some demo_message" by code_simp
  have h6: "m_senderId demo_message \<noteq> js ''other-user-1''" by code_simp
  note t = delete_POST_rejects_non_sender [OF h1 h2 h3 h4 h5 h6, of demo_parse]
  show ?thesis by (intro conjI) (fact h1 h2 h3 h4 h5 h6 t)+
qed


lemma fold_setDelivered:
  "distinct (map fst tbl) \<Longrightarrow>
   fold deleteEvent_setDelivered ids tbl
     = map (\<lambda>(k, e). if k \<in> set ids then (k, e\<lparr>de_delivered := True\<rparr>) else (k, e)) tbl"
  by (rule fold_mark_rows [where f = "\<lambda>e. e\<lparr>de_delivered := True\<rparr>"])
     (simp_all add: deleteEvent_setDelivered_def)

lemma delete_table_ok_id_mem:
  assumes "delete_table_ok tbl" "(k, e) \<in> set tbl"
  shows "k \<in> de_id ` {e \<in> snd ` set tbl. P e} \<longleftrightarrow> P e"
proof
  assume "k \<in> de_id ` {e \<in> snd ` set tbl. P e}"
  then obtain k' e' where e': "(k', e') \<in> set tbl" "P e'" "de_id e' = k" by auto
  with assms have "k' = k" by (auto simp: delete_table_ok_def)
  with e' assms have "e' = e" by (auto simp: delete_table_ok_def dest: eq_key_imp_eq_value)
  with e' show "P e" by simp
next
  assume "P e"
  with assms show "k \<in> de_id ` {e \<in> snd ` set tbl. P e}"
    by (force simp: delete_table_ok_def)
qed

lemma undelivered_findMany: "deleteEvent_findMany st c (Some False) None False = undelivered st c"
proof -
  have "deleteEvent_where c (Some False) None = (\<lambda>e. de_chatId e = c \<and> \<not> de_delivered e)"
    by (rule ext) (simp add: deleteEvent_where_def)
  then show ?thesis by (simp add: deleteEvent_findMany_def undelivered_def)
qed

lemma updateMany_undelivered:
  assumes ok: "delete_table_ok (deleteEvents st)"
  shows "(if length (undelivered st c) > 0
          then deleteEvent_updateMany st (map de_id (undelivered st c)) else st)
         = st\<lparr>deleteEvents := mark_delivered c (deleteEvents st)\<rparr>"
proof -
  let ?P = "\<lambda>e. de_chatId e = c \<and> \<not> de_delivered e"
  have d: "distinct (map fst (deleteEvents st))" using ok by (simp add: delete_table_ok_def)
  have setL: "set (map de_id (undelivered st c)) = de_id ` {e \<in> snd ` set (deleteEvents st). ?P e}"
    by (auto simp: undelivered_def)
  have upd: "fold deleteEvent_setDelivered (map de_id (undelivered st c)) (deleteEvents st)
               = mark_delivered c (deleteEvents st)"
    unfolding fold_setDelivered [OF d] mark_delivered_def setL
  proof (rule map_cong [OF refl])
    fix x assume x: "x \<in> set (deleteEvents st)"
    obtain k e where ke: "x = (k, e)" by (cases x)
    from delete_table_ok_id_mem [OF ok x [unfolded ke], of ?P]
    show "(case x of (k, e) \<Rightarrow>
              if k \<in> de_id ` {e \<in> snd ` set (deleteEvents st). ?P e}
              then (k, e\<lparr>de_delivered := True\<rparr>) else (k, e))
        = (case x of (k, e) \<Rightarrow> if ?P e then (k, e\<lparr>de_delivered := True\<rparr>) else (k, e))"
      by (simp add: ke)
  qed
  show ?thesis
  proof (cases "undelivered st c = []")
    case True
    then have "\<forall>e \<in> snd ` set (deleteEvents st). \<not> ?P e"
      unfolding undelivered_def by (auto simp: filter_empty_conv)
    then have "mark_delivered c (deleteEvents st) = deleteEvents st"
      unfolding mark_delivered_def by (intro map_idI) auto
    with True show ?thesis by simp
  next
    case False
    then show ?thesis by (simp add: deleteEvent_updateMany_def upd)
  qed
qed

lemma messages_GET_member:
  assumes "mg_session g = Some (Some u)" "orNull (mg_chatId g) = Some c"
    and "chatMember_findUnique st c u = Some m" and ok: "delete_table_ok (deleteEvents st)"
  shows "\<exists>r. messages_GET st g = (Inr r, st\<lparr>deleteEvents := mark_delivered c (deleteEvents st)\<rparr>)
           \<and> mr_deleteEvents r = undelivered st c"
proof -
  let ?page = "rev (message_findMany st c (mg_limit g) (mg_cursor g))"
  have "messages_GET st g =
     (Inr \<lparr>mr_messages = ?page,
           mr_deleteEvents = undelivered st c,
           mr_nextCursor =
             (if Some (int (length ?page)) = mg_limit g
              then (if ?page = [] then None else Some (m_id (fst (last ?page))))
              else None)\<rparr>,
      if length (undelivered st c) > 0
      then deleteEvent_updateMany st (map de_id (undelivered st c)) else st)"
    using assms(1-3) by (simp add: messages_GET_def Let_def undelivered_findMany)
  then show ?thesis unfolding updateMany_undelivered [OF ok] by simp
qed

lemma chatMember_findUnique_deleteEvents [simp]:
  "chatMember_findUnique (st\<lparr>deleteEvents := tbl\<rparr>) c u = chatMember_findUnique st c u"
  by (simp add: chatMember_findUnique_def)

lemma pendingDelete_of_mark [simp]:
  "pendingDelete_of (st\<lparr>deleteEvents := tbl\<rparr>) (e\<lparr>de_delivered := b\<rparr>) = pendingDelete_of st e"
  by (simp add: pendingDelete_of_def)

lemma insert_sorted_map:
  assumes "\<And>a b. cmp (f a) (f b) = cmp a b"
  shows "insert_sorted cmp (f x) (map f ys) = map f (insert_sorted cmp x ys)"
  by (induction ys) (simp_all add: assms)

lemma Array_sort_map:
  assumes "\<And>a b. cmp (f a) (f b) = cmp a b"
  shows "Array_sort cmp (map f xs) = map f (Array_sort cmp xs)"
  unfolding Array_sort_def
  by (induction xs) (simp_all add: insert_sorted_map [where cmp = cmp and f = f, OF assms])

lemma set_insert_sorted: "set (insert_sorted cmp x ys) = insert x (set ys)"
  by (induction ys) auto

lemma set_Array_sort: "set (Array_sort cmp xs) = set xs"
  unfolding Array_sort_def by (induction xs) (simp_all add: set_insert_sorted)

text \<open>What the query of \<open>GET /api/delete\<close> lets through.\<close>

lemma deleteEvent_where_since:
  "deleteEvent_where c None since e \<longleftrightarrow>
     de_chatId e = c \<and> (\<forall>t x. since = Some (Some t) \<and> de_timestamp e = Some x \<longrightarrow> t < x)"
  by (auto simp: deleteEvent_where_def date_le_def split: option.splits)

lemma delete_GET_member:
  assumes "dg_session g = Some (Some u)" "orNull (dg_chatId g) = Some c"
    and "chatMember_findUnique st c u = Some m"
  shows "delete_GET st g =
     Inr (map (pendingDelete_of st)
            (Array_sort timestamp_compare
               (filter (deleteEvent_where c None (dg_since g)) (map snd (deleteEvents st)))))"
  using assms by (simp add: delete_GET_def deleteEvent_findMany_def)

lemma delete_GET_ignores_flag:
  assumes "dg_session g = Some (Some u)" "orNull (dg_chatId g) = Some c"
    and "chatMember_findUnique st c u = Some m"
  shows "delete_GET (st\<lparr>deleteEvents := mark_delivered c' (deleteEvents st)\<rparr>) g = delete_GET st g"
proof -
  let ?st1 = "st\<lparr>deleteEvents := mark_delivered c' (deleteEvents st)\<rparr>"
  let ?f = "\<lambda>e. if de_chatId e = c' \<and> \<not> de_delivered e then e\<lparr>de_delivered := True\<rparr> else e"
  let ?Q = "deleteEvent_where c None (dg_since g)"
  have rows: "map snd (deleteEvents ?st1) = map ?f (map snd (deleteEvents st))"
    by (simp add: mark_delivered_def case_prod_unfold comp_def if_distrib)
  have ts: "de_timestamp (?f e) = de_timestamp e" and ch: "de_chatId (?f e) = de_chatId e" for e
    by simp_all
  have Q: "?Q (?f e) = ?Q e" for e
    unfolding deleteEvent_where_def ts ch by simp
  have flt: "filter ?Q (map ?f xs) = map ?f (filter ?Q xs)" for xs
    by (induction xs) (simp_all add: Q del: if_split)
  have cmp: "timestamp_compare (?f a) (?f b) = timestamp_compare a b" for a b
    unfolding timestamp_compare_def ts by (rule refl)
  have srt: "Array_sort timestamp_compare (map ?f xs) = map ?f (Array_sort timestamp_compare xs)" for xs
    by (rule Array_sort_map) (rule cmp)
  have view: "pendingDelete_of ?st1 (?f e) = pendingDelete_of st e" for e
    by (simp add: pendingDelete_of_def)
  have m1: "chatMember_findUnique ?st1 c u = Some m" using assms(3) by simp
  show ?thesis
    unfolding delete_GET_member [OF assms] delete_GET_member [OF assms(1,2) m1] rows flt srt
    by (simp add: comp_def view del: if_split)
qed

text \<open>
  Claim C7, as amended. Every delete record carries one \<open>delivered\<close> flag, per record and
  not per recipient. A poll of \<open>GET /api/messages\<close> by a member of the chat returns exactly
  the chat's records whose flag is unset and sets the flag of each of them, changing nothing
  else in the store. \<open>GET /api/delete\<close> neither reads nor changes the flag: before and after
  such a poll it gives every member of the chat the same answer, which holds every record of
  the chat except those whose timestamp is at or before the \<open>since\<close> of the request.
\<close>

theorem delete_event_one_flag:
  assumes ok: "delete_table_ok (deleteEvents st)"
    and p1: "mg_session g1 = Some (Some u1)" "orNull (mg_chatId g1) = Some c"
            "chatMember_findUnique st c u1 = Some m1"
    and p2: "dg_session g2 = Some (Some u2)" "orNull (dg_chatId g2) = Some c"
            "chatMember_findUnique st c u2 = Some m2"
    and r1: "messages_GET st g1 = (res1, st1)"
  shows "\<exists>polled pending.
      res1 = Inr polled
    \<and> mr_deleteEvents polled =
        filter (\<lambda>e. de_chatId e = c \<and> \<not> de_delivered e) (map snd (deleteEvents st))
    \<and> st1 = st\<lparr>deleteEvents :=
               map (\<lambda>(k, e). if de_chatId e = c \<and> \<not> de_delivered e
                               then (k, e\<lparr>de_delivered := True\<rparr>) else (k, e))
                 (deleteEvents st)\<rparr>
    \<and> delete_GET st g2 = Inr pending
    \<and> delete_GET st1 g2 = Inr pending
    \<and> set pending =
        pendingDelete_of st `
          {e \<in> snd ` set (deleteEvents st).
             de_chatId e = c
             \<and> (\<forall>t x. dg_since g2 = Some (Some t) \<and> de_timestamp e = Some x \<longrightarrow> t < x)}"
proof -
  let ?st1 = "st\<lparr>deleteEvents := mark_delivered c (deleteEvents st)\<rparr>"
  let ?pending = "map (pendingDelete_of st)
            (Array_sort timestamp_compare
               (filter (deleteEvent_where c None (dg_since g2)) (map snd (deleteEvents st))))"
  from messages_GET_member [OF p1 ok] r1
  obtain polled where f: "res1 = Inr polled" "st1 = ?st1" "mr_deleteEvents polled = undelivered st c"
    by auto
  have a2: "mr_deleteEvents polled =
        filter (\<lambda>e. de_chatId e = c \<and> \<not> de_delivered e) (map snd (deleteEvents st))"
    by (simp add: f(3) undelivered_def)
  have a3: "st1 = st\<lparr>deleteEvents :=
               map (\<lambda>(k, e). if de_chatId e = c \<and> \<not> de_delivered e
                               then (k, e\<lparr>de_delivered := True\<rparr>) else (k, e))
                 (deleteEvents st)\<rparr>"
    unfolding f(2) mark_delivered_def by (rule refl)
  have a4: "delete_GET st g2 = Inr ?pending" by (rule delete_GET_member [OF p2])
  have a5: "delete_GET st1 g2 = Inr ?pending"
    unfolding f(2) delete_GET_ignores_flag [OF p2] by (rule a4)
  have a6: "set ?pending =
        pendingDelete_of st `
          {e \<in> snd ` set (deleteEvents st).
             de_chatId e = c
             \<and> (\<forall>t x. dg_since g2 = Some (Some t) \<and> de_timestamp e = Some x \<longrightarrow> t < x)}"
    unfolding set_map set_Array_sort set_filter deleteEvent_where_since by (rule refl)
  show ?thesis
    by (rule exI [of _ polled], rule exI [of _ ?pending]) (intro conjI; fact f(1) a2 a3 a4 a5 a6)
qed

theorem delete_event_one_flag_witness:
  "delete_table_ok (deleteEvents demo_deleted)
   \<and> mg_session (demo_poll ''demo-user-1'') = Some (Some (js ''demo-user-1''))
   \<and> orNull (mg_chatId (demo_poll ''demo-user-1'')) = Some (js ''chat-1'')
   \<and> chatMember_findUnique demo_deleted (js ''chat-1'') (js ''demo-user-1'')
       = Some (snd (demo_member ''member-1'' ''chat-1'' ''demo-user-1''))
   \<and> dg_session (demo_sync ''other-user-1'' (Some (Some 1999))) = Some (Some (js ''other-user-1''))
   \<and> orNull (dg_chatId (demo_sync ''other-user-1'' (Some (Some 1999)))) = Some (js ''chat-1'')
   \<and> chatMember_findUnique demo_deleted (js ''chat-1'') (js ''other-user-1'')
       = Some (snd (demo_member ''member-2'' ''chat-1'' ''other-user-1''))
   \<and> (\<exists>polled pending.
        fst (messages_GET demo_deleted (demo_poll ''demo-user-1'')) = Inr polled
      \<and> mr_deleteEvents polled =
          filter (\<lambda>e. de_chatId e = js ''chat-1'' \<and> \<not> de_delivered e)
            (map snd (deleteEvents demo_deleted))
      \<and> snd (messages_GET demo_deleted (demo_poll ''demo-user-1'')) =
          demo_deleted\<lparr>deleteEvents :=
               map (\<lambda>(k, e). if de_chatId e = js ''chat-1'' \<and> \<not> de_delivered e
                               then (k, e\<lparr>de_delivered := True\<rparr>) else (k, e))
                 (deleteEvents demo_deleted)\<rparr>
      \<and> delete_GET demo_deleted (demo_sync ''other-user-1'' (Some (Some 1999))) = Inr pending
      \<and> delete_GET (snd (messages_GET demo_deleted (demo_poll ''demo-user-1'')))
           (demo_sync ''other-user-1'' (Some (Some 1999))) = Inr pending
      \<and> set pending =
          pendingDelete_of demo_deleted `
            {e \<in> snd ` set (deleteEvents demo_deleted).
               de_chatId e = js ''chat-1''
               \<and> (\<forall>t x. dg_since (demo_sync ''other-user-1'' (Some (Some 1999))) = Some (Some t)
                          \<and> de_timestamp e = Some x \<longrightarrow> t < x)})"
proof -
  have h0: "delete_table_ok (deleteEvents demo_deleted)" by code_simp
  have h1: "mg_session (demo_poll ''demo-user-1'') = Some (Some (js ''demo-user-1''))"
    by (simp add: demo_poll_def)
  have h2: "orNull (mg_chatId (demo_poll ''demo-user-1'')) = Some (js ''chat-1'')" by code_simp
  have h3: "chatMember_findUnique demo_deleted (js ''chat-1'') (js ''demo-user-1'')
       = Some (snd (demo_member ''member-1'' ''chat-1'' ''demo-user-1''))" by code_simp
  have h4: "dg_session (demo_sync ''other-user-1'' (Some (Some 1999))) = Some (Some (js ''other-user-1''))"
    by (simp add: demo_sync_def)
  have h5: "orNull (dg_chatId (demo_sync ''other-user-1'' (Some (Some 1999)))) = Some (js ''chat-1'')"
    by code_simp
  have h6: "chatMember_findUnique demo_deleted (js ''chat-1'') (js ''other-user-1'')
       = Some (snd (demo_member ''member-2'' ''chat-1'' ''other-user-1''))" by code_simp
  note t = delete_event_one_flag [OF h0 h1 h2 h3 h4 h5 h6 surjective_pairing]
  show ?thesis by (intro conjI) (fact h0 h1 h2 h3 h4 h5 h6 t)+
qed

text \<open>
  Claim C7 as stated fails: the record has a single flag, and once \<open>demo-user-1\<close> has
  fetched it through \<open>GET /api/messages\<close> the same route returns no delete event to
  \<open>other-user-1\<close>, who has not received the record.
\<close>

theorem delete_event_flag_counterexample:
  "map snd (deleteEvents demo_deleted) = [demo_deleteEvent]
   \<and> map_sum id mr_deleteEvents (fst (messages_GET demo_deleted (demo_poll ''demo-user-1'')))
       = Inr [demo_deleteEvent]
   \<and> map snd (deleteEvents (snd (messages_GET demo_deleted (demo_poll ''demo-user-1''))))
       = [demo_deleteEvent\<lparr>de_delivered := True\<rparr>]
   \<and> map_sum id mr_deleteEvents
        (fst (messages_GET (snd (messages_GET demo_deleted (demo_poll ''demo-user-1'')))
               (demo_poll ''other-user-1'')))
       = Inr []"
  by code_simp

section \<open>Properties of the platform functions\<close>

subsection \<open>Base64 round trip\<close>


lemma unat16_of_nat: "n < 65536 \<Longrightarrow> unat (of_nat n :: 16 word) = n"
  by (simp add: unat_of_nat)

lemma unat8_of_nat: "n < 256 \<Longrightarrow> unat (of_nat n :: 8 word) = n"
  by (simp add: unat_of_nat)

lemma unat8_less: "unat (b :: 8 word) < 256"
  using unsigned_less [of b, where ?'a = nat] by simp

lemma unat16_less: "unat (u :: 16 word) < 65536"
  using unsigned_less [of u, where ?'a = nat] by simp

lemma ucast_8_16_8: "ucast (ucast (b :: 8 word) :: 16 word) = b"
  by (rule ucast_up_ucast_id) (simp add: is_up)

lemma unat_ucast_8_16: "unat (ucast (b :: 8 word) :: 16 word) = unat b"
proof -
  have "uint (ucast b :: 16 word) = uint b"
    by (rule uint_up_ucast) (simp add: is_up)
  then show ?thesis by (metis unat_eq_nat_uint)
qed

lemma of_nat_unat8: "of_nat (unat (b :: 8 word)) = b"
  by simp

lemma unat_b64char:
  assumes "n < 64"
  shows "unat (b64char n) =
     (if n < 26 then 65 + n else if n < 52 then 71 + n else if n < 62 then n - 4
      else if n = 62 then 43 else 47)"
proof -
  have 1: "unat (of_nat (65 + n) :: 16 word) = 65 + n"
    and 2: "unat (of_nat (71 + n) :: 16 word) = 71 + n"
    and 3: "unat (of_nat (n - 4) :: 16 word) = n - 4"
    using assms by (simp_all only: unat16_of_nat) 
  show ?thesis
    unfolding b64char_def by (simp only: 1 2 3 if_distrib [of unat] cong: if_cong) simp
qed

lemma b64index_b64char: "n < 64 \<Longrightarrow> b64index (b64char n) = Some n"
  unfolding b64index_def Let_def by (simp only: unat_b64char) (simp, arith)



lemma b64char_not_special:
  assumes "n < 64"
  shows "b64char n \<noteq> b64pad" and "\<not> is_ascii_whitespace (b64char n)"
proof -
  have "unat (b64char n) \<noteq> 61 \<and> unat (b64char n) \<notin> {9, 10, 12, 13, 32}"
    unfolding unat_b64char [OF assms] using assms by auto
  then show "b64char n \<noteq> b64pad" and "\<not> is_ascii_whitespace (b64char n)"
    unfolding b64pad_def is_ascii_whitespace_def by auto
qed

lemma div_mult_add: "x < k \<Longrightarrow> (y * k + x) div k = (y::nat)"
  by simp

lemma mod_mult_add: "x < k \<Longrightarrow> (y * k + x) mod k = (x::nat)"
  by simp

lemma byte_parts:
  assumes "a < (256::nat)"
  shows "a div 4 < 64" "a div 16 < 16" "a div 64 < 4"
  using assms by (simp_all add: less_mult_imp_div_less)

lemma group_bounds:
  assumes "b < (256::nat)" "c < (256::nat)"
  shows "a mod 4 * 16 + b div 16 < 64" "b mod 16 * 4 + c div 64 < 64" "a mod 4 * 16 < 64" "b mod 16 * 4 < 64"
proof -
  have "a mod 4 < 4" "b mod 16 < 16" by simp_all
  with byte_parts [OF assms(1)] byte_parts [OF assms(2)]
  show "a mod 4 * 16 + b div 16 < 64" "b mod 16 * 4 + c div 64 < 64" "a mod 4 * 16 < 64" "b mod 16 * 4 < 64"
    by linarith+
qed

lemma sextets_of_bound: "\<forall>b \<in> set bs. b < 256 \<Longrightarrow> \<forall>s \<in> set (sextets_of bs). s < 64"
proof (induction bs rule: sextets_of.induct)
  case (1 a b c rest)
  then have "a < 256" "b < 256" "c < 256" by simp_all
  with 1 show ?case by (simp add: byte_parts group_bounds)
next
  case (2 a b)
  then have "a < 256" "b < 256" by simp_all
  then show ?case by (simp add: byte_parts group_bounds)
next
  case (3 a)
  then have "a < 256" by simp
  then show ?case by (simp add: byte_parts group_bounds)
next
  case 4
  then show ?case by simp
qed

lemma length_sextets_of: "length (sextets_of bs) = (4 * length bs + 2) div 3"
  by (induction bs rule: sextets_of.induct) simp_all

lemma regroup:
  assumes "b < (256::nat)" "c < (256::nat)"
  shows "a div 4 * 4 + (a mod 4 * 16 + b div 16) div 16 = a"
    and "(a mod 4 * 16 + b div 16) mod 16 * 16 + (b mod 16 * 4 + c div 64) div 4 = b"
    and "(b mod 16 * 4 + c div 64) mod 4 * 64 + c mod 64 = c"
    and "(a mod 4 * 16 + b div 16) mod 16 * 16 + (b mod 16 * 4) div 4 = b"
    and "a div 4 * 4 + (a mod 4 * 16) div 16 = a"
proof -
  note bp = byte_parts [OF assms(1)] byte_parts [OF assms(2)]
  show "a div 4 * 4 + (a mod 4 * 16 + b div 16) div 16 = a"
    by (simp only: div_mult_add [OF bp(2)] div_mult_mod_eq)
  show "(a mod 4 * 16 + b div 16) mod 16 * 16 + (b mod 16 * 4 + c div 64) div 4 = b"
    by (simp only: mod_mult_add [OF bp(2)] div_mult_add [OF bp(6)] div_mult_mod_eq)
  show "(b mod 16 * 4 + c div 64) mod 4 * 64 + c mod 64 = c"
    by (simp only: mod_mult_add [OF bp(6)] div_mult_mod_eq)
  have z: "b mod 16 * 4 = b mod 16 * 4 + 0" "a mod 4 * 16 = a mod 4 * 16 + 0" by simp_all
  show "(a mod 4 * 16 + b div 16) mod 16 * 16 + (b mod 16 * 4) div 4 = b"
    by (simp only: mod_mult_add [OF bp(2)] div_mult_mod_eq) simp
  show "a div 4 * 4 + (a mod 4 * 16) div 16 = a"
    by simp
qed

lemma bytes_of_sextets_of: "\<forall>b \<in> set bs. b < 256 \<Longrightarrow> bytes_of_sextets (sextets_of bs) = bs"
proof (induction bs rule: sextets_of.induct)
  case (1 a b c rest)
  then have "b < 256" "c < 256" by simp_all
  from regroup(1-3) [OF this] 1 show ?case by simp
next
  case (2 a b)
  then have "b < 256" by simp
  from regroup(1,4) [OF this this] show ?case by simp
next
  case (3 a)
  show ?case by simp
next
  case 4
  then show ?case by simp
qed



lemma those_indices_b64char:
  "\<forall>s \<in> set sx. s < 64 \<Longrightarrow> those_indices (map b64char sx) = Some sx"
  by (induction sx) (simp_all add: b64index_b64char)

lemma filter_ws_b64:
  "\<forall>s \<in> set sx. s < 64 \<Longrightarrow>
   filter (\<lambda>c. \<not> is_ascii_whitespace c) (map b64char sx @ replicate p b64pad)
     = map b64char sx @ replicate p b64pad"
proof -
  assume a: "\<forall>s \<in> set sx. s < 64"
  have "\<not> is_ascii_whitespace b64pad" by (simp add: is_ascii_whitespace_def b64pad_def)
  with a show ?thesis
    by (auto simp: filter_id_conv b64char_not_special)
qed

lemma strip_padding_0:
  assumes "\<forall>s \<in> set sx. s < 64"
  shows "strip_padding (map b64char sx) = map b64char sx"
proof (cases sx rule: rev_cases)
  case Nil
  then show ?thesis by (simp add: strip_padding_def)
next
  case (snoc ys y)
  with assms have "b64char y \<noteq> b64pad" by (simp add: b64char_not_special)
  then show ?thesis
    unfolding strip_padding_def snoc by (auto simp: drop_Suc_Cons)
qed

lemma strip_padding_1:
  assumes "\<forall>s \<in> set sx. s < 64" "sx \<noteq> []"
  shows "strip_padding (map b64char sx @ [b64pad]) = map b64char sx"
proof -
  from assms(2) obtain ys y where snoc: "sx = ys @ [y]" by (cases sx rule: rev_cases) auto
  with assms have ne: "b64char y \<noteq> b64pad" by (simp add: b64char_not_special)
  have "drop (length (map b64char sx @ [b64pad]) - 2) (map b64char sx @ [b64pad]) = [b64char y, b64pad]"
    unfolding snoc by simp
  with ne show ?thesis
    unfolding strip_padding_def by simp
qed

lemma strip_padding_2:
  "strip_padding (xs @ [b64pad, b64pad]) = xs"
  unfolding strip_padding_def by simp

lemma of_nat_unat_ucast: "map of_nat (map unat (bs :: bytes)) = (map ucast bs :: jsstring)"
  by simp

lemma mod3:
  "(3 * q + 0) mod 3 = (0::nat)" "(3 * q + 1) mod 3 = (1::nat)" "(3 * q + 2) mod 3 = (2::nat)"
  by presburger+

lemma enc_div:
  "(4 * (3 * q + 0) + 2) div 3 = 4 * (q::nat)"
  "(4 * (3 * q + 1) + 2) div 3 = 4 * (q::nat) + 2"
  "(4 * (3 * q + 2) + 2) div 3 = 4 * (q::nat) + 3"
  by presburger+

lemma enc_lengths:
  "(3 - (3 * q + 0) mod 3) mod 3 = (0::nat)" "(4 * (3 * q + 0) + 2) div 3 = 4 * (q::nat)"
  "(3 - (3 * q + 1) mod 3) mod 3 = (2::nat)" "(4 * (3 * q + 1) + 2) div 3 = 4 * q + 2"
  "(3 - (3 * q + 2) mod 3) mod 3 = (1::nat)" "(4 * (3 * q + 2) + 2) div 3 = 4 * q + 3"
  unfolding mod3 enc_div by simp_all

lemma enc_mods:
  "(4 * q + 2) mod 4 = (2::nat)" "(4 * q + 3) mod 4 = (3::nat)" "(4 * q) mod 4 = (0::nat)"
  by presburger+

lemma atob_base64_encode: "atob (base64_encode bs) = Inr (map ucast bs)"
proof -
  let ?ns = "map unat bs"
  let ?sx = "sextets_of ?ns"
  let ?X = "map b64char ?sx"
  have b: "\<forall>b \<in> set ?ns. b < 256" by (simp add: unat8_less)
  have sx: "\<forall>s \<in> set ?sx. s < 64" by (rule sextets_of_bound [OF b])
  have len: "length ?X = (4 * length bs + 2) div 3" by (simp add: length_sextets_of)
  have dec: "those_indices ?X = Some ?sx" by (rule those_indices_b64char [OF sx])
  have bytes: "map of_nat (bytes_of_sextets ?sx) = (map ucast bs :: jsstring)"
    unfolding bytes_of_sextets_of [OF b] by (rule of_nat_unat_ucast)
  obtain q r where L: "length bs = 3 * q + r" and r: "r < 3"
    by (metis mod_less_divisor mult_div_mod_eq zero_less_numeral)
  have ws: "filter (\<lambda>c. \<not> is_ascii_whitespace c) (base64_encode bs) = base64_encode bs"
    unfolding base64_encode_def by (rule filter_ws_b64 [OF sx])
  from r consider "r = 0" | "r = 1" | "r = 2" by linarith
  then have "(if length (base64_encode bs) mod 4 = 0 then strip_padding (base64_encode bs)
              else base64_encode bs) = ?X \<and> length ?X mod 4 \<noteq> 1"
  proof cases
    case 1
    with L have L': "length bs = 3 * q + 0" by simp
    have p: "(3 - length bs mod 3) mod 3 = 0" and l: "length ?X = 4 * q"
      unfolding len L' by (rule enc_lengths)+
    have "base64_encode bs = ?X" unfolding base64_encode_def p by simp
    have m: "length ?X mod 4 = 0" unfolding l by simp
    with \<open>base64_encode bs = ?X\<close> strip_padding_0 [OF sx] show ?thesis by simp
  next
    case 2
    with L have L': "length bs = 3 * q + 1" by simp
    have p: "(3 - length bs mod 3) mod 3 = 2" and l: "length ?X = 4 * q + 2"
      unfolding len L' by (rule enc_lengths)+
    have e: "base64_encode bs = ?X @ [b64pad, b64pad]"
      unfolding base64_encode_def p by (simp add: numeral_2_eq_2)
    have m: "length ?X mod 4 = 2" unfolding l by (rule enc_mods)
    have "length (base64_encode bs) mod 4 = 0" unfolding e using m by (simp add: mod_Suc)
    with m e strip_padding_2 [of ?X] show ?thesis by simp
  next
    case 3
    with L have L': "length bs = 3 * q + 2" by simp
    have p: "(3 - length bs mod 3) mod 3 = 1" and l: "length ?X = 4 * q + 3"
      unfolding len L' by (rule enc_lengths)+
    have e: "base64_encode bs = ?X @ [b64pad]"
      unfolding base64_encode_def p by simp
    have ne: "?sx \<noteq> []" using l by auto
    have m: "length ?X mod 4 = 3" unfolding l by (rule enc_mods)
    have "length (base64_encode bs) mod 4 = 0" unfolding e using m by (simp add: mod_Suc)
    with m e strip_padding_1 [OF sx ne] show ?thesis by simp
  qed
  then show ?thesis
    unfolding atob_def Let_def ws by (simp add: dec bytes)
qed

lemma Uint8Array_from_atob:
  "bindE (atob (base64_encode bs)) (\<lambda>binary. f (Uint8Array_from binary)) = f bs"
  by (simp add: atob_base64_encode bindE_def Uint8Array_from_def ucast_8_16_8 comp_def)

lemma btoa_binary: "btoa (map ucast (bs :: bytes)) = Inr (base64_encode bs)"
proof -
  have "\<not> (\<exists>c \<in> set (map ucast bs :: jsstring). 255 < unat c)"
  proof
    assume "\<exists>c \<in> set (map ucast bs :: jsstring). 255 < unat c"
    then obtain b :: "8 word" where "255 < unat (ucast b :: 16 word)" by auto
    with unat8_less [of b] show False by (simp add: unat_ucast_8_16)
  qed
  moreover have "map ucast (map ucast bs :: jsstring) = bs"
    by (simp add: comp_def ucast_8_16_8)
  ultimately show ?thesis unfolding btoa_def by simp
qed

lemma btoa_fromCharCode:
  "length bs \<le> max_args \<Longrightarrow> bindE (fromCharCode_spread max_args bs) btoa = Inr (base64_encode bs)"
  by (simp add: fromCharCode_spread_def bindE_def btoa_binary)


section \<open>Properties of the client's delete handling\<close>


lemma processDeleteEvents_loop_step:
  "processDeleteEvents_loop N P V onDelete (event # events) store ui acc =
     (if passes_verification N P V event \<and> dcm_messageId event \<in> fst ` set store
      then processDeleteEvents_loop N P V onDelete events
             (AList.delete (dcm_messageId event) store) (onDelete (dcm_messageId event) ui)
             (acc @ [dcm_messageId event])
      else processDeleteEvents_loop N P V onDelete events store ui acc)"
  by (simp add: passes_verification_def Let_def split: option.splits)

lemma keys_delete: "fst ` set (AList.delete k al) = fst ` set al - {k}"
  by (induction al) auto

lemma processDeleteEvents_loop_effect:
  assumes "processDeleteEvents_loop N P V onDelete events store ui acc = (ids, store', ui')"
  shows "fst ` set store' \<subseteq> fst ` set store
    \<and> (\<forall>event \<in> set events. passes_verification N P V event \<longrightarrow> dcm_messageId event \<notin> fst ` set store')"
  using assms
proof (induction events arbitrary: store ui acc)
  case Nil
  then show ?case by simp
next
  case (Cons event events)
  show ?case
  proof (cases "passes_verification N P V event \<and> dcm_messageId event \<in> fst ` set store")
    case True
    let ?store1 = "AList.delete (dcm_messageId event) store"
    from Cons.prems True have "processDeleteEvents_loop N P V onDelete events ?store1
        (onDelete (dcm_messageId event) ui) (acc @ [dcm_messageId event]) = (ids, store', ui')"
      by (simp only: processDeleteEvents_loop_step simp_thms if_True)
    from Cons.IH [OF this] have ih: "fst ` set store' \<subseteq> fst ` set ?store1"
      "\<forall>e \<in> set events. passes_verification N P V e \<longrightarrow> dcm_messageId e \<notin> fst ` set store'"
      by blast+
    have k: "fst ` set ?store1 = fst ` set store - {dcm_messageId event}" by (rule keys_delete)
    from ih(1) k have "fst ` set store' \<subseteq> fst ` set store" "dcm_messageId event \<notin> fst ` set store'"
      by blast+
    with ih(2) show ?thesis by simp
  next
    case False
    with Cons.prems have "processDeleteEvents_loop N P V onDelete events store ui acc = (ids, store', ui')"
      by (simp only: processDeleteEvents_loop_step if_False)
    from Cons.IH [OF this] have ih: "fst ` set store' \<subseteq> fst ` set store"
      "\<forall>e \<in> set events. passes_verification N P V e \<longrightarrow> dcm_messageId e \<notin> fst ` set store'"
      by blast+
    from False ih(1) have "passes_verification N P V event \<longrightarrow> dcm_messageId event \<notin> fst ` set store'"
      by blast
    with ih show ?thesis by simp
  qed
qed

lemma processDeleteEvents_loop_skip:
  assumes "\<forall>event \<in> set events. passes_verification N P V event \<longrightarrow> dcm_messageId event \<notin> fst ` set store"
  shows "processDeleteEvents_loop N P V onDelete events store ui acc = (acc, store, ui)"
  using assms
proof (induction events)
  case Nil
  then show ?case by simp
next
  case (Cons event events)
  from Cons.prems have no: "\<not> (passes_verification N P V event \<and> dcm_messageId event \<in> fst ` set store)"
    and rest: "\<forall>event \<in> set events. passes_verification N P V event \<longrightarrow> dcm_messageId event \<notin> fst ` set store"
    by auto
  show ?case
    by (simp only: processDeleteEvents_loop_step no if_False Cons.IH [OF rest])
qed

lemma processDeletes_loop_step:
  "processDeletes_loop P V (event # events) newDeleted =
     (if cde_messageId event \<notin> set newDeleted \<and> chat_accepts P V event
      then processDeletes_loop P V events (newDeleted @ [cde_messageId event])
      else processDeletes_loop P V events newDeleted)"
  by (simp add: chat_accepts_def split: option.splits sum.splits)

lemma processDeletes_loop_effect:
  "set newDeleted \<subseteq> set (processDeletes_loop P V events newDeleted)
   \<and> (\<forall>event \<in> set events. chat_accepts P V event
         \<longrightarrow> cde_messageId event \<in> set (processDeletes_loop P V events newDeleted))"
proof (induction events arbitrary: newDeleted)
  case Nil
  then show ?case by simp
next
  case (Cons event events)
  show ?case
  proof (cases "cde_messageId event \<notin> set newDeleted \<and> chat_accepts P V event")
    case True
    from Cons.IH [of "newDeleted @ [cde_messageId event]"] True show ?thesis
      by (simp only: processDeletes_loop_step if_True) auto
  next
    case False
    from Cons.IH [of newDeleted] False show ?thesis
      by (simp only: processDeletes_loop_step if_False) auto
  qed
qed

lemma processDeletes_loop_skip:
  assumes "\<forall>event \<in> set events. chat_accepts P V event \<longrightarrow> cde_messageId event \<in> set newDeleted"
  shows "processDeletes_loop P V events newDeleted = newDeleted"
  using assms
proof (induction events)
  case Nil
  then show ?case by simp
next
  case (Cons event events)
  from Cons.prems have no: "\<not> (cde_messageId event \<notin> set newDeleted \<and> chat_accepts P V event)"
    and rest: "\<forall>event \<in> set events. chat_accepts P V event \<longrightarrow> cde_messageId event \<in> set newDeleted"
    by auto
  show ?case
    by (simp only: processDeletes_loop_step no if_False Cons.IH [OF rest])
qed


subsection \<open>The stand-in scheme accepts what it signed\<close>

lemma toy_verifyDeleteEvent:
  assumes "pk \<noteq> []"
    and "dcm_signature r = base64_encode (pk @ TextEncoder_encode
           (delete_payload N (dcm_messageId r) (dcm_chatId r) (dcm_senderId r) (dcm_timestamp r)))"
  shows "verifyDeleteEvent N toy_importKey toy_verify r (base64_encode pk) = True"
proof -
  have i: "importPublicKey toy_importKey (base64_encode pk) = Inr pk"
    unfolding importPublicKey_def Uint8Array_from_atob [where f = toy_importKey]
    using assms(1) by (simp add: toy_importKey_def)
  have v: "verifySignature toy_verify d (base64_encode (pk @ TextEncoder_encode d)) pk = Inr True" for d
    unfolding verifySignature_def Let_def
      Uint8Array_from_atob [where f = "\<lambda>b. toy_verify pk b (TextEncoder_encode d)"]
    by (simp add: toy_verify_def)
  show ?thesis
    unfolding verifyDeleteEvent_def verifyDeleteEvent_try_def i assms(2) Let_def
    by (simp add: bindE_def v)
qed

lemma demo_event_passes:
  "passes_verification demo_digits toy_importKey toy_verify (demo_event ''m1'')"
proof -
  have k: "orNull (senderPublicKey (demo_event ''m1'')) = Some (base64_encode demo_key)"
    by code_simp
  have "verifyDeleteEvent demo_digits toy_importKey toy_verify
      \<lparr>dcm_messageId = dcm_messageId (demo_event ''m1''), dcm_chatId = dcm_chatId (demo_event ''m1''),
       dcm_senderId = dcm_senderId (demo_event ''m1''), dcm_signature = dcm_signature (demo_event ''m1''),
       dcm_timestamp = dcm_timestamp (demo_event ''m1'')\<rparr> (base64_encode demo_key) = True"
    by (rule toy_verifyDeleteEvent) (simp_all add: demo_key_def demo_event_def demo_signature_def)
  then show ?thesis unfolding passes_verification_def k by simp
qed

lemma demo_first_application:
  "processDeleteEvents demo_digits toy_importKey toy_verify (#) [demo_event ''m1''] demo_local []
     = ([js ''m1''], [(js ''m2'', js ''world'')], [js ''m1''])"
proof -
  have m: "dcm_messageId (demo_event ''m1'') = js ''m1''" by (simp add: demo_event_def)
  have i: "js ''m1'' \<in> fst ` set demo_local" by code_simp
  have d: "AList.delete (js ''m1'') demo_local = [(js ''m2'', js ''world'')]" by code_simp
  show ?thesis
    unfolding processDeleteEvents_def processDeleteEvents_loop_step
    by (simp add: demo_event_passes m i d)
qed


text \<open>
  Claim C5. A delete event whose message is no longer in the local store, whether or not
  its signature verifies, is skipped by \<open>processDeleteEvents\<close>: the call returns no deleted
  id, raises no error, leaves the store as it is and does not call \<open>onDelete\<close>. Applying
  the same batch of events a second time, to the store the first application left, changes
  nothing. In the chat room, an event whose message id is already in the set of deleted
  ids leaves that set as it is, and applying the same batch twice gives the same set as
  applying it once.
\<close>

theorem delete_apply_idempotent:
  "(dcm_messageId event \<notin> fst ` set store \<longrightarrow>
      processDeleteEvents N P V onDelete [event] store ui = ([], store, ui))
   \<and> (processDeleteEvents N P V onDelete events store ui = (ids, store', ui') \<longrightarrow>
      processDeleteEvents N P V onDelete events store' ui' = ([], store', ui'))
   \<and> (cde_messageId chatEvent \<in> set deleted \<longrightarrow>
      processDeletes P V [chatEvent] deleted = deleted)
   \<and> processDeletes P V chatEvents (processDeletes P V chatEvents deleted)
      = processDeletes P V chatEvents deleted"
proof (intro conjI impI)
  assume "dcm_messageId event \<notin> fst ` set store"
  then show "processDeleteEvents N P V onDelete [event] store ui = ([], store, ui)"
    unfolding processDeleteEvents_def by (intro processDeleteEvents_loop_skip) simp
next
  assume "processDeleteEvents N P V onDelete events store ui = (ids, store', ui')"
  then have "\<forall>event \<in> set events. passes_verification N P V event \<longrightarrow> dcm_messageId event \<notin> fst ` set store'"
    unfolding processDeleteEvents_def by (blast dest: processDeleteEvents_loop_effect)
  then show "processDeleteEvents N P V onDelete events store' ui' = ([], store', ui')"
    unfolding processDeleteEvents_def by (rule processDeleteEvents_loop_skip)
next
  assume "cde_messageId chatEvent \<in> set deleted"
  then show "processDeletes P V [chatEvent] deleted = deleted"
    unfolding processDeletes_def by (intro processDeletes_loop_skip) simp
next
  show "processDeletes P V chatEvents (processDeletes P V chatEvents deleted)
      = processDeletes P V chatEvents deleted"
    unfolding processDeletes_def
    using processDeletes_loop_effect [of deleted P V chatEvents]
    by (intro processDeletes_loop_skip) blast
qed

theorem delete_apply_idempotent_witness:
  "dcm_messageId (demo_event ''m9'') \<notin> fst ` set demo_local
   \<and> processDeleteEvents demo_digits toy_importKey toy_verify (#) [demo_event ''m9''] demo_local []
       = ([], demo_local, [])
   \<and> processDeleteEvents demo_digits toy_importKey toy_verify (#) [demo_event ''m1''] demo_local []
       = ([js ''m1''], [(js ''m2'', js ''world'')], [js ''m1''])
   \<and> processDeleteEvents demo_digits toy_importKey toy_verify (#) [demo_event ''m1'']
         [(js ''m2'', js ''world'')] [js ''m1'']
       = ([], [(js ''m2'', js ''world'')], [js ''m1''])
   \<and> cde_messageId (demo_chat_event None) \<in> set [js ''m1'']
   \<and> processDeletes toy_importKey toy_verify [demo_chat_event None] [js ''m1''] = [js ''m1'']"
proof -
  have h1: "dcm_messageId (demo_event ''m9'') \<notin> fst ` set demo_local" by code_simp
  note h2 = demo_first_application
  have h3: "cde_messageId (demo_chat_event None) \<in> set [js ''m1'']" by code_simp
  note t = delete_apply_idempotent [where event = "demo_event ''m9''" and store = demo_local
      and N = demo_digits and P = toy_importKey and V = toy_verify and onDelete = "(#)" and ui = "[]"
      and events = "[demo_event ''m1'']" and ids = "[js ''m1'']"
      and store' = "[(js ''m2'', js ''world'')]" and ui' = "[js ''m1'']"
      and chatEvent = "demo_chat_event None" and deleted = "[js ''m1'']" and chatEvents = "[]"]
  from t h1 have c1: "processDeleteEvents demo_digits toy_importKey toy_verify (#) [demo_event ''m9''] demo_local []
      = ([], demo_local, [])" by blast
  from t h2 have c2: "processDeleteEvents demo_digits toy_importKey toy_verify (#) [demo_event ''m1'']
         [(js ''m2'', js ''world'')] [js ''m1''] = ([], [(js ''m2'', js ''world'')], [js ''m1''])"
    by blast
  from t h3 have c3: "processDeletes toy_importKey toy_verify [demo_chat_event None] [js ''m1''] = [js ''m1'']"
    by blast
  show ?thesis by (intro conjI) (fact h1 c1 h2 c2 h3 c3)+
qed


section \<open>Which deletions take effect\<close>












section \<open>UTF-8 round trip\<close>

subsection \<open>Arithmetic of the 6-bit groups\<close>

lemma div_bounds:
  assumes "lo * k \<le> (x::nat)" "x < hi * k"
  shows "lo \<le> x div k" "x div k < hi"
proof -
  from assms(2) have k: "0 < k" by (cases k) simp_all
  from div_le_mono [OF assms(1), of k] k show "lo \<le> x div k" by simp
  from assms(2) show "x div k < hi" by (rule less_mult_imp_div_less)
qed

lemma add_mod_id: "a < k \<Longrightarrow> (c * k + a) mod k = (a::nat)"
  by simp

lemma cont_mod: "a < 64 \<Longrightarrow> (128 + a) mod 64 = (a::nat)"
  using add_mod_id [of a 64 2] by simp

lemma lead2_mod: "a < 32 \<Longrightarrow> (192 + a) mod 32 = (a::nat)"
  using add_mod_id [of a 32 6] by simp

lemma lead3_mod: "a < 16 \<Longrightarrow> (224 + a) mod 16 = (a::nat)"
  using add_mod_id [of a 16 14] by simp

lemma lead4_mod: "a < 8 \<Longrightarrow> (240 + a) mod 8 = (a::nat)"
  using add_mod_id [of a 8 30] by simp

lemma div_4096: "(cp::nat) div 4096 = cp div 64 div 64"
  by (simp add: div_mult2_eq)

lemma div_262144: "(cp::nat) div 262144 = cp div 64 div 64 div 64"
  by (simp add: div_mult2_eq)

subsection \<open>Decoding what was encoded\<close>

lemma utf8_bytes_digits:
  "utf8_bytes cp =
     (if cp < 0x80 then [cp]
      else if cp < 0x800 then [0xC0 + cp div 64, 0x80 + cp mod 64]
      else if cp < 0x10000 then [0xE0 + cp div 64 div 64, 0x80 + (cp div 64) mod 64, 0x80 + cp mod 64]
      else [0xF0 + cp div 64 div 64 div 64, 0x80 + (cp div 64 div 64) mod 64,
            0x80 + (cp div 64) mod 64, 0x80 + cp mod 64])"
  unfolding utf8_bytes_def div_4096 div_262144 by (rule refl)

lemma decode_ascii:
  "cp < 0x80 \<Longrightarrow> utf8_decode 0 0 0x80 0xBF (cp # rest) = cp # utf8_decode 0 0 0x80 0xBF rest"
  by simp

lemma decode_cont_last:
  assumes "a < 64"
  shows "utf8_decode c 1 0x80 0xBF ((0x80 + a) # rest) = (c * 64 + a) # utf8_decode 0 0 0x80 0xBF rest"
  using assms by (simp add: cont_mod)

lemma decode_cont:
  assumes "a < 64" "lower \<le> 0x80 + a" "0x80 + a \<le> upper" "1 < needed"
  shows "utf8_decode c needed lower upper ((0x80 + a) # rest)
           = utf8_decode (c * 64 + a) (needed - 1) 0x80 0xBF rest"
  using assms by (simp add: cont_mod)

lemma decode_lead2:
  assumes "2 \<le> x" "x < 32"
  shows "utf8_decode 0 0 0x80 0xBF ((0xC0 + x) # rest) = utf8_decode x 1 0x80 0xBF rest"
  using assms by (simp add: lead2_mod)

lemma decode_lead3:
  assumes "x < 16"
  shows "utf8_decode 0 0 0x80 0xBF ((0xE0 + x) # rest)
           = utf8_decode x 2 (if x = 0 then 0xA0 else 0x80) (if x = 13 then 0x9F else 0xBF) rest"
  using assms by (simp add: lead3_mod)

lemma decode_lead4:
  assumes "x < 5"
  shows "utf8_decode 0 0 0x80 0xBF ((0xF0 + x) # rest)
           = utf8_decode x 3 (if x = 0 then 0x90 else 0x80) (if x = 4 then 0x8F else 0xBF) rest"
  using assms by (simp add: lead4_mod)

lemma mod_of_div: "x div k = q \<Longrightarrow> x mod k = x - q * (k::nat)"
  by (metis add_diff_cancel_left' mult.commute mult_div_mod_eq)

lemma digits2:
  assumes "128 \<le> (cp::nat)" "cp < 2048"
  shows "2 \<le> cp div 64" "cp div 64 < 32"
proof -
  from assms have "2 * 64 \<le> cp" "cp < 32 * 64" by simp_all
  then show "2 \<le> cp div 64" "cp div 64 < 32" by (rule div_bounds)+
qed

lemma decode_scalar2:
  assumes "128 \<le> cp" "cp < 2048"
  shows "utf8_decode 0 0 0x80 0xBF (utf8_bytes cp @ rest) = cp # utf8_decode 0 0 0x80 0xBF rest"
proof -
  have b: "utf8_bytes cp = [0xC0 + cp div 64, 0x80 + cp mod 64]"
    using assms by (simp add: utf8_bytes_digits)
  have m: "cp mod 64 < 64" by simp
  show ?thesis
    unfolding b append_Cons append_Nil decode_lead2 [OF digits2 [OF assms]] decode_cont_last [OF m]
    by (simp only: div_mult_mod_eq)
qed

lemma digits3:
  assumes "2048 \<le> (cp::nat)" "cp < 65536"
  shows "32 \<le> cp div 64" "cp div 64 < 1024" "cp div 64 div 64 < 16"
proof -
  from assms have "32 * 64 \<le> cp" "cp < 1024 * 64" by simp_all
  then show a: "32 \<le> cp div 64" and b: "cp div 64 < 1024" by (rule div_bounds)+
  from b have "cp div 64 < 16 * 64" by simp
  then show "cp div 64 div 64 < 16" by (rule less_mult_imp_div_less)
qed

lemma decode_scalar3:
  assumes "2048 \<le> cp" "cp < 65536" "\<not> (55296 \<le> cp \<and> cp \<le> 57343)"
  shows "utf8_decode 0 0 0x80 0xBF (utf8_bytes cp @ rest) = cp # utf8_decode 0 0 0x80 0xBF rest"
proof -
  define x1 where "x1 = cp div 64"
  define x2 where "x2 = x1 div 64"
  define a1 where "a1 = x1 mod 64"
  define a0 where "a0 = cp mod 64"
  have b: "utf8_bytes cp = [0xE0 + x2, 0x80 + a1, 0x80 + a0]"
    using assms(1,2) by (simp add: utf8_bytes_digits x1_def x2_def a1_def a0_def)
  have x1: "32 \<le> x1" "x1 < 1024" and x2: "x2 < 16"
    unfolding x1_def x2_def by (rule digits3 [OF assms(1,2)])+
  have a1: "a1 < 64" and a0: "a0 < 64" by (simp_all add: a1_def a0_def)
  have r1: "x2 * 64 + a1 = x1" unfolding x2_def a1_def by (rule div_mult_mod_eq)
  have r0: "x1 * 64 + a0 = cp" unfolding x1_def a0_def by (rule div_mult_mod_eq)
  have lo: "(if x2 = 0 then 0xA0 else 0x80) \<le> 0x80 + a1"
  proof (cases "x2 = 0")
    case True
    with r1 have "a1 = x1" by simp
    with x1(1) True show ?thesis by simp
  next
    case False
    then show ?thesis by simp
  qed
  have hi: "0x80 + a1 \<le> (if x2 = 13 then 0x9F else 0xBF)"
  proof (cases "x2 = 13")
    case True
    have "cp < 55296"
    proof (rule ccontr)
      assume "\<not> cp < 55296"
      with assms(3) have "57344 \<le> cp" by simp
      then have "896 * 64 \<le> cp" by simp
      with assms(2) have "896 \<le> x1" unfolding x1_def by (intro div_bounds(1) [where hi = 1024]) simp_all
      then have "14 * 64 \<le> x1" by simp
      with x1(2) have "14 \<le> x2" unfolding x2_def by (intro div_bounds(1) [where hi = 16]) simp_all
      with True show False by simp
    qed
    then have "cp < 864 * 64" by simp
    then have "x1 < 864" unfolding x1_def by (rule less_mult_imp_div_less)
    with r1 True have "a1 < 32" by simp
    with True show ?thesis by simp
  next
    case False
    with a1 show ?thesis by simp
  qed
  have n: "(1::nat) < 2" by simp
  have s: "(2::nat) - 1 = 1" by simp
  show ?thesis
    unfolding b append_Cons append_Nil decode_lead3 [OF x2] decode_cont [OF a1 lo hi n] s
      decode_cont_last [OF a0] r1 r0
    by (rule refl)
qed

lemma digits4:
  assumes "65536 \<le> (cp::nat)" "cp < 1114112"
  shows "1024 \<le> cp div 64" "cp div 64 < 17408" "16 \<le> cp div 64 div 64" "cp div 64 div 64 < 272"
    "cp div 64 div 64 div 64 < 5"
proof -
  from assms have "1024 * 64 \<le> cp" "cp < 17408 * 64" by simp_all
  then show a: "1024 \<le> cp div 64" and b: "cp div 64 < 17408" by (rule div_bounds)+
  from a b have "16 * 64 \<le> cp div 64" "cp div 64 < 272 * 64" by simp_all
  then show c: "16 \<le> cp div 64 div 64" and d: "cp div 64 div 64 < 272" by (rule div_bounds)+
  from d have "cp div 64 div 64 < 5 * 64" by simp
  then show "cp div 64 div 64 div 64 < 5" by (rule less_mult_imp_div_less)
qed

lemma decode_scalar4:
  assumes "65536 \<le> cp" "cp < 1114112"
  shows "utf8_decode 0 0 0x80 0xBF (utf8_bytes cp @ rest) = cp # utf8_decode 0 0 0x80 0xBF rest"
proof -
  define x1 where "x1 = cp div 64"
  define x2 where "x2 = x1 div 64"
  define x3 where "x3 = x2 div 64"
  define a2 where "a2 = x2 mod 64"
  define a1 where "a1 = x1 mod 64"
  define a0 where "a0 = cp mod 64"
  have b: "utf8_bytes cp = [0xF0 + x3, 0x80 + a2, 0x80 + a1, 0x80 + a0]"
    using assms(1,2) by (simp add: utf8_bytes_digits x1_def x2_def x3_def a2_def a1_def a0_def)
  have x2: "16 \<le> x2" "x2 < 272" and x3: "x3 < 5"
    unfolding x1_def x2_def x3_def by (rule digits4 [OF assms])+
  have a2: "a2 < 64" and a1: "a1 < 64" and a0: "a0 < 64" by (simp_all add: a2_def a1_def a0_def)
  have r2: "x3 * 64 + a2 = x2" unfolding x3_def a2_def by (rule div_mult_mod_eq)
  have r1: "x2 * 64 + a1 = x1" unfolding x2_def a1_def by (rule div_mult_mod_eq)
  have r0: "x1 * 64 + a0 = cp" unfolding x1_def a0_def by (rule div_mult_mod_eq)
  have lo: "(if x3 = 0 then 0x90 else 0x80) \<le> 0x80 + a2"
  proof (cases "x3 = 0")
    case True
    with r2 have "a2 = x2" by simp
    with x2(1) True show ?thesis by simp
  next
    case False
    then show ?thesis by simp
  qed
  have hi: "0x80 + a2 \<le> (if x3 = 4 then 0x8F else 0xBF)"
  proof (cases "x3 = 4")
    case True
    with r2 x2(2) have "a2 < 16" by simp
    with True show ?thesis by simp
  next
    case False
    with a2 show ?thesis by simp
  qed
  have lo1: "0x80 \<le> 0x80 + a1" and hi1: "0x80 + a1 \<le> 0xBF" using a1 by simp_all
  have n3: "(1::nat) < 3" and n2: "(1::nat) < 2" by simp_all
  have s: "(3::nat) - 1 = 2" "(2::nat) - 1 = 1" by simp_all
  show ?thesis
    unfolding b append_Cons append_Nil decode_lead4 [OF x3] decode_cont [OF a2 lo hi n3] s
      decode_cont [OF a1 lo1 hi1 n2] decode_cont_last [OF a0] r2 r1 r0
    by (rule refl)
qed

lemma decode_scalar:
  assumes "is_scalar cp"
  shows "utf8_decode 0 0 0x80 0xBF (utf8_bytes cp @ rest) = cp # utf8_decode 0 0 0x80 0xBF rest"
proof -
  from assms have s: "cp < 1114112" "\<not> (55296 \<le> cp \<and> cp \<le> 57343)"
    by (simp_all add: is_scalar_def)
  consider "cp < 128" | "128 \<le> cp" "cp < 2048" | "2048 \<le> cp" "cp < 65536" | "65536 \<le> cp"
    by linarith
  then show ?thesis
  proof cases
    case 1
    then have "utf8_bytes cp = [cp]" by (simp add: utf8_bytes_def)
    with 1 show ?thesis by (simp only: append_Cons append_Nil decode_ascii)
  next
    case 2
    then show ?thesis by (rule decode_scalar2)
  next
    case 3
    then show ?thesis using s(2) by (rule decode_scalar3)
  next
    case 4
    then show ?thesis using s(1) by (rule decode_scalar4)
  qed
qed

lemma decode_scalars:
  "\<forall>cp \<in> set cps. is_scalar cp \<Longrightarrow> utf8_decode 0 0 0x80 0xBF (concat (map utf8_bytes cps)) = cps"
  by (induction cps) (simp_all add: decode_scalar)

subsection \<open>Scalar values, code units and the byte order mark\<close>

lemma scalar_values_scalar: "\<forall>cp \<in> set (scalar_values s). is_scalar cp"
proof (induction s rule: scalar_values.induct)
  case 1
  then show ?case by simp
next
  case (2 u)
  then show ?case using unat16_less [of u] by (auto simp: is_scalar_def is_lead_def is_trail_def)
next
  case (3 u v rest)
  show ?case
  proof (cases "is_lead u")
    case True
    show ?thesis
    proof (cases "is_trail v")
      case t: True
      have "is_scalar (0x10000 + (unat u - 0xD800) * 0x400 + (unat v - 0xDC00))"
        using True t unfolding is_scalar_def is_lead_def is_trail_def by linarith
      with 3 True t show ?thesis by simp
    next
      case False
      with 3 True show ?thesis by (simp add: is_scalar_def)
    qed
  next
    case False
    have "is_scalar (unat u)" if "\<not> is_trail u"
      using that False unat16_less [of u] unfolding is_scalar_def is_lead_def is_trail_def by linarith
    with False 3 show ?thesis
      by (simp add: is_scalar_def)
  qed
qed

lemma utf16_units_bmp: "utf16_units (unat (u :: 16 word)) = [u]"
  using unat16_less [of u] by (simp add: utf16_units_def)

lemma utf16_units_pair:
  assumes "is_lead u" "is_trail v"
  shows "utf16_units (0x10000 + (unat u - 0xD800) * 0x400 + (unat v - 0xDC00)) = [u, v]"
proof -
  define h where "h = unat u - 0xD800"
  define l where "l = unat v - 0xDC00"
  from assms have bu: "55296 \<le> unat u" and bv: "56320 \<le> unat v" "unat v \<le> 57343"
    unfolding is_lead_def is_trail_def by simp_all
  from bu have u: "0xD800 + h = unat u" unfolding h_def by simp
  from bv have v: "0xDC00 + l = unat v" unfolding l_def by simp
  from bv have l: "l < 0x400" unfolding l_def by linarith
  have d: "(h * 0x400 + l) div 0x400 = h" and m: "(h * 0x400 + l) mod 0x400 = l"
    using l by simp_all
  have "utf16_units (0x10000 + h * 0x400 + l) =
      [of_nat (0xD800 + (h * 0x400 + l) div 0x400), of_nat (0xDC00 + (h * 0x400 + l) mod 0x400)]"
    by (simp add: utf16_units_def add.assoc)
  also have "\<dots> = [of_nat (unat u), of_nat (unat v)]"
    unfolding d m u v by (rule refl)
  finally show ?thesis unfolding h_def l_def by simp
qed

lemma utf16_scalar_values:
  "well_formed s \<Longrightarrow> concat (map utf16_units (scalar_values s)) = s"
proof (induction s rule: scalar_values.induct)
  case 1
  then show ?case by simp
next
  case (2 u)
  then show ?case by (simp add: utf16_units_bmp)
next
  case (3 u v rest)
  show ?case
  proof (cases "is_lead u")
    case True
    with "3.prems" have t: "is_trail v" and w: "well_formed rest" by simp_all
    from "3.IH"(1) [OF True t w] True t show ?thesis
      by (simp add: utf16_units_pair)
  next
    case False
    with "3.prems" have t: "\<not> is_trail u" and w: "well_formed (v # rest)" by simp_all
    from "3.IH"(4) [OF False t w] False t show ?thesis
      by (simp add: utf16_units_bmp)
  qed
qed

lemma utf8_bytes_range:
  assumes "is_scalar cp"
  shows "\<forall>b \<in> set (utf8_bytes cp). b < 256"
proof -
  from assms have s: "cp < 1114112" by (simp add: is_scalar_def)
  have m: "n mod 64 < 128" for n :: nat
    using mod_less_divisor [of 64 n] by linarith
  consider "cp < 128" | "128 \<le> cp" "cp < 2048" | "2048 \<le> cp" "cp < 65536" | "65536 \<le> cp"
    by linarith
  then show ?thesis
  proof cases
    case 1
    then show ?thesis by (simp add: utf8_bytes_def)
  next
    case 2
    from digits2 [OF 2] 2 show ?thesis by (simp add: utf8_bytes_digits m)
  next
    case 3
    from digits3 [OF 3] 3 show ?thesis
      by (simp add: utf8_bytes_digits m)
  next
    case 4
    from digits4 [OF 4 s] 4 show ?thesis
      by (simp add: utf8_bytes_digits m)
  qed
qed

lemma encode_bytes_range:
  "\<forall>b \<in> set (concat (map utf8_bytes (scalar_values s))). b < 256"
  using scalar_values_scalar [of s] utf8_bytes_range by auto

lemma unat_of_nat_bytes:
  "\<forall>b \<in> set ns. b < 256 \<Longrightarrow> map unat (map of_nat ns :: bytes) = ns"
  by (induction ns) (simp_all add: unat8_of_nat)

lemma no_BOM_bytes:
  assumes "is_scalar cp" "cp \<noteq> 65279"
  shows "take 3 (utf8_bytes cp @ rest) \<noteq> [239, 187, 191]"
proof -
  from assms have s: "cp < 1114112" by (simp add: is_scalar_def)
  consider "cp < 128" | "128 \<le> cp" "cp < 2048" | "2048 \<le> cp" "cp < 65536" | "65536 \<le> cp"
    by linarith
  then show ?thesis
  proof cases
    case 1
    then show ?thesis by (simp add: utf8_bytes_def)
  next
    case 2
    from digits2 [OF 2] 2 show ?thesis by (simp add: utf8_bytes_digits)
  next
    case 3
    define x1 where "x1 = cp div 64"
    define x2 where "x2 = x1 div 64"
    define a1 where "a1 = x1 mod 64"
    define a0 where "a0 = cp mod 64"
    have b: "utf8_bytes cp = [0xE0 + x2, 0x80 + a1, 0x80 + a0]"
      using 3 by (simp add: utf8_bytes_digits x1_def x2_def a1_def a0_def)
    have r1: "x2 * 64 + a1 = x1" unfolding x2_def a1_def by (rule div_mult_mod_eq)
    have r0: "x1 * 64 + a0 = cp" unfolding x1_def a0_def by (rule div_mult_mod_eq)
    show ?thesis
    proof
      assume "take 3 (utf8_bytes cp @ rest) = [239, 187, 191]"
      then have "x2 = 15" "a1 = 59" "a0 = 63" unfolding b by simp_all
      with r1 have "x1 = 1019" by simp
      with r0 \<open>a0 = 63\<close> have "cp = 65279" by simp
      with assms(2) show False by simp
    qed
  next
    case 4
    from 4 s show ?thesis by (simp add: utf8_bytes_digits)
  qed
qed

lemma unat_FEFF: "unat (u :: 16 word) = 65279 \<Longrightarrow> u = 0xFEFF"
proof -
  assume "unat u = 65279"
  then have "of_nat (unat u) = (of_nat 65279 :: 16 word)" by simp
  then show ?thesis by simp
qed

lemma first_scalar:
  assumes "well_formed s" "s \<noteq> []" "hd s \<noteq> 0xFEFF"
  shows "\<exists>cp rest. scalar_values s = cp # rest \<and> cp \<noteq> 65279"
proof (cases s rule: scalar_values.cases)
  case 1
  with assms(2) show ?thesis by simp
next
  case (2 u)
  with assms have "\<not> is_lead u" "\<not> is_trail u" "unat u \<noteq> 65279"
    by (auto dest: unat_FEFF)
  with 2 show ?thesis by simp
next
  case (3 u v rest)
  show ?thesis
  proof (cases "is_lead u")
    case True
    with 3 assms(1) have "is_trail v" by simp
    with True 3 show ?thesis by simp
  next
    case False
    with 3 assms have "\<not> is_trail u" "unat u \<noteq> 65279" by (auto dest: unat_FEFF)
    with False 3 show ?thesis by simp
  qed
qed

lemma encode_no_BOM:
  assumes "well_formed s" "s = [] \<or> hd s \<noteq> 0xFEFF"
  shows "take 3 (concat (map utf8_bytes (scalar_values s))) \<noteq> [239, 187, 191]"
proof (cases "s = []")
  case True
  then show ?thesis by simp
next
  case False
  with assms(2) have "hd s \<noteq> 0xFEFF" by simp
  from first_scalar [OF assms(1) False this]
  obtain cp rest where sv: "scalar_values s = cp # rest" and cp: "cp \<noteq> 65279" by blast
  from scalar_values_scalar [of s] sv have "is_scalar cp" by simp
  from no_BOM_bytes [OF this cp] show ?thesis unfolding sv by simp
qed

lemma strip_BOM_none:
  assumes "\<forall>b \<in> set ns. b < 256" "take 3 ns \<noteq> [239, 187, 191]"
  shows "strip_BOM (map of_nat ns) = map of_nat ns"
proof -
  have "take 3 (map of_nat ns :: bytes) \<noteq> [0xEF, 0xBB, 0xBF]"
  proof
    assume "take 3 (map of_nat ns :: bytes) = [0xEF, 0xBB, 0xBF]"
    then have "map unat (take 3 (map of_nat ns :: bytes)) = map unat [0xEF, 0xBB, 0xBF :: 8 word]"
      by (rule arg_cong)
    then have "take 3 (map unat (map of_nat ns :: bytes)) = [239, 187, 191]"
      by (simp add: take_map)
    with assms(2) show False unfolding unat_of_nat_bytes [OF assms(1)] by simp
  qed
  then show ?thesis by (simp add: strip_BOM_def)
qed

lemma TextDecoder_TextEncoder:
  assumes "well_formed s" "s = [] \<or> hd s \<noteq> 0xFEFF"
  shows "TextDecoder_decode (TextEncoder_encode s) = s"
proof -
  let ?ns = "concat (map utf8_bytes (scalar_values s))"
  have r: "\<forall>b \<in> set ?ns. b < 256" by (rule encode_bytes_range)
  have "TextDecoder_decode (TextEncoder_encode s)
      = concat (map utf16_units (utf8_decode 0 0 0x80 0xBF ?ns))"
    unfolding TextDecoder_decode_def TextEncoder_encode_def
      strip_BOM_none [OF r encode_no_BOM [OF assms]] unat_of_nat_bytes [OF r]
    by (rule refl)
  also have "\<dots> = concat (map utf16_units (scalar_values s))"
    unfolding decode_scalars [OF scalar_values_scalar] by (rule refl)
  also have "\<dots> = s" by (rule utf16_scalar_values [OF assms(1)])
  finally show ?thesis .
qed

section \<open>Properties of the key reset\<close>







end
